theory Spec2Isabelle
  imports Main "HOL-Library.AList"
begin

section \<open>The infinite row cache: data model\<close>

text \<open>
  The cache of \<^verbatim>\<open>infiniteCache.ts\<close> maps block numbers to block objects. Blocks are
  objects that outlive their membership of the map (a block that was removed from the
  map still receives the completion of its fetch), so they live in an explicit store
  and the map holds references into it.

  Row indices, block numbers and the page size are JavaScript numbers; they are
  modelled as integers. \<^verbatim>\<open>Math.floor(rowIndex / pageSize)\<close> is \<open>rowIndex div pageSize\<close>
  for a positive page size (for a page size of zero JavaScript yields an infinity or
  NaN, which the integer model does not have: the theorems below assume a positive
  page size, as the data model of the specification does).
\<close>

type_synonym ref = nat

datatype loadState = NotLoaded | Loading | Loaded

text \<open>
  A row slot holds a blank placeholder or a row identity: an identity number, unique to
  the created row, and the data item behind it. The row's recorded index is the
  position of the slot that holds it; no operation of the cache reads it, and it is
  not modelled as a field of its own.
\<close>

datatype 'a rowNode = Blank | Node (nodeId: nat) (nodeData: 'a)

datatype listener = OnPageLoaded

datatype 'a event = ModelUpdated | ItemsAdded "'a rowNode list"

datatype 'a fetchResult = FetchSuccess "'a list" | FetchFailure

text \<open>
  The configuration \<^verbatim>\<open>cacheParams\<close>. The field \<open>inView\<close> stands for the load-scheduling
  policy of the block layer, which decides the blocks that \<^verbatim>\<open>checkBlockToLoad\<close> may
  start loading; the specification leaves the policy open, so it is a parameter.
\<close>

record cacheParams =
  pageSize :: int
  maxBlocksInCache :: "int option"
  inView :: "int \<Rightarrow> bool"

record 'a block =
  pageNumber :: int
  state :: loadState
  dirty :: bool
  rowNodes :: "'a rowNode list"
  lastAccessed :: nat
  listeners :: "listener list"

text \<open>
  The cache: the block map as an association list in the iteration order of the map
  (keys are unique), the store of block objects, the counters that hand out access
  stamps and row identities, the row-count estimate, the activity flag, the events
  sent to the event service and the calls received by load-complete listeners.
\<close>

record 'a cache =
  blocks :: "(int \<times> ref) list"
  heap :: "'a block list"
  accessSeq :: nat
  nextNodeId :: nat
  virtualRowCount :: int
  maxRowFound :: bool
  active :: bool
  events :: "'a event list"
  loadCompleteCalls :: "(listener \<times> ref) list"

section \<open>The block (\<^verbatim>\<open>InfiniteBlock\<close>)\<close>

text \<open>
  Modelled from the spec: the class \<^verbatim>\<open>InfiniteBlock\<close> is not among the sources. Section 3
  of the specification gives its fields: \<open>startRow = blockNumber * pageSize\<close>,
  \<open>endRow = startRow + pageSize\<close>, a load state that starts \<open>NotLoaded\<close>, a dirty flag,
  \<open>pageSize\<close> row slots (slot \<open>i\<close> is row \<open>startRow + i\<close>) and the access stamp.
\<close>

definition newInfiniteBlock :: "cacheParams \<Rightarrow> int \<Rightarrow> 'a block" where
  "newInfiniteBlock p blockNumber =
     \<lparr>pageNumber = blockNumber, state = NotLoaded, dirty = False,
      rowNodes = replicate (nat (pageSize p)) Blank, lastAccessed = 0, listeners = []\<rparr>"

definition getStartRow :: "cacheParams \<Rightarrow> 'a block \<Rightarrow> int" where
  "getStartRow p b = pageNumber b * pageSize p"

definition getEndRow :: "cacheParams \<Rightarrow> 'a block \<Rightarrow> int" where
  "getEndRow p b = getStartRow p b + pageSize p"

text \<open>Reading and writing a slot by its offset; an offset outside the slots reads as
  absent and a write there changes nothing.\<close>

definition slotRead :: "'a block \<Rightarrow> int \<Rightarrow> 'a rowNode option" where
  "slotRead b i =
     (if 0 \<le> i \<and> i < int (length (rowNodes b)) then Some (rowNodes b ! nat i) else None)"

definition slotWrite :: "int \<Rightarrow> 'a rowNode \<Rightarrow> 'a block \<Rightarrow> 'a block" where
  "slotWrite i v b =
     (if 0 \<le> i \<and> i < int (length (rowNodes b))
      then b\<lparr>rowNodes := (rowNodes b)[nat i := v]\<rparr> else b)"

text \<open>The update of one object of the store.\<close>

definition updBlock :: "ref \<Rightarrow> ('a block \<Rightarrow> 'a block) \<Rightarrow> 'a cache \<Rightarrow> 'a cache" where
  "updBlock r f s = s\<lparr>heap := (heap s)[r := f (heap s ! r)]\<rparr>"

text \<open>
  Modelled from the spec: the load trigger of a block (section 4.2): on a first access or
  a dirty access, while not already loading, the block issues its fetch and goes to
  \<open>Loading\<close>.
\<close>

definition requestLoad :: "'a block \<Rightarrow> 'a block" where
  "requestLoad b =
     (if (state b = NotLoaded \<or> dirty b) \<and> state b \<noteq> Loading then b\<lparr>state := Loading\<rparr> else b)"

text \<open>
  Modelled from the spec: \<^verbatim>\<open>InfiniteBlock.getRow\<close> stamps the block with the next value of
  the access counter, may start its load, and returns the slot of the row.
\<close>

definition block_getRow :: "cacheParams \<Rightarrow> ref \<Rightarrow> int \<Rightarrow> 'a cache \<Rightarrow> 'a rowNode option \<times> 'a cache" where
  "block_getRow p r rowIndex s =
     (let t = Suc (accessSeq s);
          s1 = updBlock r (\<lambda>b. requestLoad (b\<lparr>lastAccessed := t\<rparr>)) (s\<lparr>accessSeq := t\<rparr>)
      in (slotRead (heap s1 ! r) (rowIndex - getStartRow p (heap s1 ! r)), s1))"

text \<open>
  Modelled from the spec: \<^verbatim>\<open>setRowNode\<close> and \<^verbatim>\<open>setBlankRowNode\<close> mutate one slot directly
  and bypass the load pipeline; \<^verbatim>\<open>setDirty\<close> sets the flag; \<^verbatim>\<open>setNewData\<close> materialises a
  fresh row identity for a data item in a slot and returns it.
\<close>

definition setRowNode :: "cacheParams \<Rightarrow> ref \<Rightarrow> int \<Rightarrow> 'a rowNode \<Rightarrow> 'a cache \<Rightarrow> 'a cache" where
  "setRowNode p r rowIndex node s =
     updBlock r (\<lambda>b. slotWrite (rowIndex - getStartRow p b) node b) s"

definition setBlankRowNode :: "cacheParams \<Rightarrow> ref \<Rightarrow> int \<Rightarrow> 'a cache \<Rightarrow> 'a cache" where
  "setBlankRowNode p r rowIndex s =
     updBlock r (\<lambda>b. slotWrite (rowIndex - getStartRow p b) Blank b) s"

definition setDirty :: "ref \<Rightarrow> 'a cache \<Rightarrow> 'a cache" where
  "setDirty r s = updBlock r (\<lambda>b. b\<lparr>dirty := True\<rparr>) s"

definition setNewData :: "cacheParams \<Rightarrow> ref \<Rightarrow> int \<Rightarrow> 'a \<Rightarrow> 'a cache \<Rightarrow> 'a rowNode \<times> 'a cache" where
  "setNewData p r rowIndex dataItem s =
     (let newRowNode = Node (nextNodeId s) dataItem
      in (newRowNode,
          updBlock r (\<lambda>b. slotWrite (rowIndex - getStartRow p b) newRowNode b)
            (s\<lparr>nextNodeId := Suc (nextNodeId s)\<rparr>)))"

definition addEventListener :: "ref \<Rightarrow> listener \<Rightarrow> 'a cache \<Rightarrow> 'a cache" where
  "addEventListener r l s = updBlock r (\<lambda>b. b\<lparr>listeners := listeners b @ [l]\<rparr>) s"

text \<open>
  Modelled from the spec: the completion of a block's fetch (section 4.2, not among the
  sources). It acts on the block object, resident or not. On success the returned items
  become row identities, the slots beyond them are blank, the dirty flag is cleared and
  the block is \<open>Loaded\<close>; on failure the block stays without data and leaves \<open>Loading\<close>, to
  be retried on a later dirty pass. In both cases every listener registered on the block
  is called once. A block that is not \<open>Loading\<close> has no fetch to complete.
\<close>

definition notifyLoadComplete :: "ref \<Rightarrow> 'a cache \<Rightarrow> 'a cache" where
  "notifyLoadComplete r s =
     s\<lparr>loadCompleteCalls := loadCompleteCalls s @ map (\<lambda>l. (l, r)) (listeners (heap s ! r))\<rparr>"

definition populate :: "cacheParams \<Rightarrow> nat \<Rightarrow> 'a list \<Rightarrow> 'a rowNode list" where
  "populate p firstId items =
     (let n = nat (pageSize p); xs = take n items
      in map (\<lambda>(i, x). Node (firstId + i) x) (enumerate 0 xs) @ replicate (n - length xs) Blank)"

definition fetchResolved :: "cacheParams \<Rightarrow> ref \<Rightarrow> 'a fetchResult \<Rightarrow> 'a cache \<Rightarrow> 'a cache" where
  "fetchResolved p r res s =
     (if state (heap s ! r) \<noteq> Loading then s
      else case res of
        FetchSuccess items \<Rightarrow>
          notifyLoadComplete r
            (updBlock r (\<lambda>b. b\<lparr>rowNodes := populate p (nextNodeId s) items, dirty := False, state := Loaded\<rparr>)
               (s\<lparr>nextNodeId := nextNodeId s + min (nat (pageSize p)) (length items)\<rparr>))
      | FetchFailure \<Rightarrow>
          notifyLoadComplete r (updBlock r (\<lambda>b. b\<lparr>state := Loaded\<rparr>) s))"

section \<open>The base class (\<^verbatim>\<open>RowNodeCache\<close>)\<close>

text \<open>
  Modelled from the spec: the base class \<^verbatim>\<open>RowNodeCache\<close> is not among the sources. It
  owns the block map (unique keys), the row-count estimate, the flag \<open>maxRowFound\<close> and
  the activity flag. \<^verbatim>\<open>forEachBlockInOrder\<close> visits the blocks that are resident when it
  starts, in the iteration order of the map (section 4.1, LRU selection);
  \<^verbatim>\<open>forEachBlockInReverseOrder\<close> visits them in descending block-number order (section
  4.1, step 1 of the insertion). The callback may change the cache and the local
  variables it closes over; both are the state \<open>'st\<close> threaded through the visit.
\<close>

definition getBlock :: "'a cache \<Rightarrow> int \<Rightarrow> ref option" where
  "getBlock s blockId = map_of (blocks s) blockId"

definition setBlock :: "int \<Rightarrow> ref \<Rightarrow> 'a cache \<Rightarrow> 'a cache" where
  "setBlock blockId r s = s\<lparr>blocks := AList.update blockId r (blocks s)\<rparr>"

definition removeBlock :: "int \<Rightarrow> 'a cache \<Rightarrow> 'a cache" where
  "removeBlock blockId s = s\<lparr>blocks := AList.delete blockId (blocks s)\<rparr>"

definition getBlockCount :: "'a cache \<Rightarrow> int" where
  "getBlockCount s = int (length (blocks s))"

definition blocksInOrder :: "'a cache \<Rightarrow> (int \<times> ref) list" where
  "blocksInOrder s = blocks s"

definition blocksInReverseOrder :: "'a cache \<Rightarrow> (int \<times> ref) list" where
  "blocksInReverseOrder s = rev (sort_key fst (blocks s))"

definition forEachBlockInOrder :: "(ref \<Rightarrow> 'st \<Rightarrow> 'st) \<Rightarrow> 'a cache \<Rightarrow> 'st \<Rightarrow> 'st" where
  "forEachBlockInOrder callback s st = fold callback (map snd (blocksInOrder s)) st"

definition forEachBlockInReverseOrder :: "(ref \<Rightarrow> 'st \<Rightarrow> 'st) \<Rightarrow> 'a cache \<Rightarrow> 'st \<Rightarrow> 'st" where
  "forEachBlockInReverseOrder callback s st = fold callback (map snd (blocksInReverseOrder s)) st"

definition isMaxRowFound :: "'a cache \<Rightarrow> bool" where
  "isMaxRowFound s = maxRowFound s"

definition getVirtualRowCount :: "'a cache \<Rightarrow> int" where
  "getVirtualRowCount s = virtualRowCount s"

definition hack_setVirtualRowCount :: "int \<Rightarrow> 'a cache \<Rightarrow> 'a cache" where
  "hack_setVirtualRowCount n s = s\<lparr>virtualRowCount := n\<rparr>"

definition isActive :: "'a cache \<Rightarrow> bool" where
  "isActive s = active s"

definition dispatchEvent :: "'a event \<Rightarrow> 'a cache \<Rightarrow> 'a cache" where
  "dispatchEvent e s = s\<lparr>events := events s @ [e]\<rparr>"

text \<open>
  Modelled from the spec: \<^verbatim>\<open>checkBlockToLoad\<close> (section 4.1, createBlock) starts the load
  of every resident block that is not loaded or dirty, is not loading already, and is in
  view according to the load-scheduling policy.
\<close>

definition checkBlockToLoad :: "cacheParams \<Rightarrow> 'a cache \<Rightarrow> 'a cache" where
  "checkBlockToLoad p s =
     forEachBlockInOrder
       (\<lambda>r s'. if inView p (pageNumber (heap s' ! r)) then updBlock r requestLoad s' else s') s s"

text \<open>
  Modelled from the spec: the constructor of the base class. The cache starts active,
  with no block, a row-count estimate of 0 (the comment in \<^verbatim>\<open>init\<close>) and the end of the
  dataset not yet found.
\<close>

definition newCache :: "'a cache" where
  "newCache =
     \<lparr>blocks = [], heap = [], accessSeq = 0, nextNodeId = 0, virtualRowCount = 0,
      maxRowFound = False, active = True, events = [], loadCompleteCalls = []\<rparr>"

section \<open>The cache (\<^verbatim>\<open>InfiniteCache\<close>, \<^verbatim>\<open>infiniteCache.ts\<close>)\<close>

text \<open>\<^verbatim>\<open>findLeastRecentlyUsedPage\<close>, lines 156-173: the callback of the scan, then the scan.\<close>

definition lruStep :: "'a cache \<Rightarrow> ref \<Rightarrow> ref \<Rightarrow> ref option \<Rightarrow> ref option" where
  "lruStep s pageToExclude block lruPage =
     (if block = pageToExclude then lruPage
      else case lruPage of
        None \<Rightarrow> Some block
      | Some l \<Rightarrow>
          if lastAccessed (heap s ! block) < lastAccessed (heap s ! l) then Some block else lruPage)"

definition findLeastRecentlyUsedPage :: "'a cache \<Rightarrow> ref \<Rightarrow> ref option" where
  "findLeastRecentlyUsedPage s pageToExclude =
     forEachBlockInOrder (lruStep s pageToExclude) s None"

text \<open>\<^verbatim>\<open>removeBlockFromCache\<close>, lines 144-154.\<close>

definition removeBlockFromCache :: "ref option \<Rightarrow> 'a cache \<Rightarrow> 'a cache" where
  "removeBlockFromCache pageToRemove s =
     (case pageToRemove of
        None \<Rightarrow> s
      | Some r \<Rightarrow> removeBlock (pageNumber (heap s ! r)) s)"

text \<open>\<^verbatim>\<open>createBlock\<close>, lines 123-142. The new object takes the next free reference of the
  store; wiring the bean has no effect on the cache.\<close>

definition needToPurge :: "cacheParams \<Rightarrow> 'a cache \<Rightarrow> bool" where
  "needToPurge p s =
     (case maxBlocksInCache p of None \<Rightarrow> False | Some m \<Rightarrow> getBlockCount s > m)"

definition createBlock :: "cacheParams \<Rightarrow> int \<Rightarrow> 'a cache \<Rightarrow> ref \<times> 'a cache" where
  "createBlock p blockNumber s =
     (let newBlock = length (heap s);
          s1 = s\<lparr>heap := heap s @ [newInfiniteBlock p blockNumber]\<rparr>;
          s2 = addEventListener newBlock OnPageLoaded s1;
          s3 = setBlock blockNumber newBlock s2;
          s4 = (if needToPurge p s3
                then removeBlockFromCache (findLeastRecentlyUsedPage s3 newBlock) s3
                else s3)
      in (newBlock, checkBlockToLoad p s4))"

text \<open>\<^verbatim>\<open>getRow\<close>, lines 108-121.\<close>

definition getRow :: "cacheParams \<Rightarrow> int \<Rightarrow> bool \<Rightarrow> 'a cache \<Rightarrow> 'a rowNode option \<times> 'a cache" where
  "getRow p rowIndex dontCreatePage s =
     (let blockId = rowIndex div pageSize p
      in case getBlock s blockId of
           None \<Rightarrow>
             if dontCreatePage then (None, s)
             else (let (block, s1) = createBlock p blockId s in block_getRow p block rowIndex s1)
         | Some block \<Rightarrow> block_getRow p block rowIndex s)"

text \<open>\<^verbatim>\<open>init\<close>, lines 28-33.\<close>

definition init :: "cacheParams \<Rightarrow> 'a cache \<Rightarrow> 'a cache" where
  "init p s = snd (getRow p 0 False s)"

text \<open>\<^verbatim>\<open>moveItemsDown\<close>, lines 35-57: the body of the loop for one row, then the loop from
  \<open>endRow - 1\<close> down to \<open>startRow\<close>.\<close>

definition moveItemsDown_body :: "cacheParams \<Rightarrow> ref \<Rightarrow> int \<Rightarrow> int \<Rightarrow> int \<Rightarrow> 'a cache \<Rightarrow> 'a cache" where
  "moveItemsDown_body p page indexOfLastRowToMove moveCount currentRowIndex s =
     (if currentRowIndex < indexOfLastRowToMove then s
      else (let indexOfNodeWeWant = currentRowIndex - moveCount;
                (nodeForThisIndex, s1) = getRow p indexOfNodeWeWant True s
            in case nodeForThisIndex of
                 Some node \<Rightarrow> setRowNode p page currentRowIndex node s1
               | None \<Rightarrow> setDirty page (setBlankRowNode p page currentRowIndex s1)))"

function moveItemsDown_loop ::
  "cacheParams \<Rightarrow> ref \<Rightarrow> int \<Rightarrow> int \<Rightarrow> int \<Rightarrow> int \<Rightarrow> 'a cache \<Rightarrow> 'a cache" where
  "moveItemsDown_loop p page startRow indexOfLastRowToMove moveCount currentRowIndex s =
     (if currentRowIndex \<ge> startRow
      then moveItemsDown_loop p page startRow indexOfLastRowToMove moveCount (currentRowIndex - 1)
             (moveItemsDown_body p page indexOfLastRowToMove moveCount currentRowIndex s)
      else s)"
  by pat_completeness auto
termination
  by (relation "measure (\<lambda>(p, page, startRow, l, m, c, s). nat (c - startRow + 1))") auto

declare moveItemsDown_loop.simps [simp del]

definition moveItemsDown :: "cacheParams \<Rightarrow> ref \<Rightarrow> int \<Rightarrow> int \<Rightarrow> 'a cache \<Rightarrow> 'a cache" where
  "moveItemsDown p page moveFromIndex moveCount s =
     (let startRow = getStartRow p (heap s ! page);
          endRow = getEndRow p (heap s ! page);
          indexOfLastRowToMove = moveFromIndex + moveCount
      in moveItemsDown_loop p page startRow indexOfLastRowToMove moveCount (endRow - 1) s)"

text \<open>\<^verbatim>\<open>insertItems\<close>, lines 59-78: the loop over the items, with the running index.\<close>

fun insertItems_loop ::
  "cacheParams \<Rightarrow> ref \<Rightarrow> int \<Rightarrow> int \<Rightarrow> int \<Rightarrow> int \<Rightarrow> 'a list \<Rightarrow> 'a rowNode list \<times> 'a cache
     \<Rightarrow> 'a rowNode list \<times> 'a cache" where
  "insertItems_loop p block pageStartRow pageEndRow indexToInsert index [] (newRowNodes, s) =
     (newRowNodes, s)"
| "insertItems_loop p block pageStartRow pageEndRow indexToInsert index (dataItem # rest) (newRowNodes, s) =
     (let rowIndex = indexToInsert + index;
          currentRowInThisPage = (rowIndex \<ge> pageStartRow \<and> rowIndex < pageEndRow)
      in if currentRowInThisPage
         then (let (newRowNode, s1) = setNewData p block rowIndex dataItem s
               in insertItems_loop p block pageStartRow pageEndRow indexToInsert (index + 1) rest
                    (newRowNodes @ [newRowNode], s1))
         else insertItems_loop p block pageStartRow pageEndRow indexToInsert (index + 1) rest
                (newRowNodes, s))"

definition insertItems :: "cacheParams \<Rightarrow> ref \<Rightarrow> int \<Rightarrow> 'a list \<Rightarrow> 'a cache \<Rightarrow> 'a rowNode list \<times> 'a cache" where
  "insertItems p block indexToInsert items s =
     (let pageStartRow = getStartRow p (heap s ! block);
          pageEndRow = getEndRow p (heap s ! block)
      in insertItems_loop p block pageStartRow pageEndRow indexToInsert 0 items ([], s))"

text \<open>\<^verbatim>\<open>dispatchModelUpdated\<close>, lines 175-179.\<close>

definition dispatchModelUpdated :: "'a cache \<Rightarrow> 'a cache" where
  "dispatchModelUpdated s = (if isActive s then dispatchEvent ModelUpdated s else s)"

text \<open>\<^verbatim>\<open>insertItemsAtIndex\<close>, lines 80-103: the callback run on each block (it changes the
  cache and the local list \<open>newNodes\<close>), then the operation.\<close>

definition insertIntoBlock ::
  "cacheParams \<Rightarrow> int \<Rightarrow> 'a list \<Rightarrow> ref \<Rightarrow> 'a cache \<times> 'a rowNode list \<Rightarrow> 'a cache \<times> 'a rowNode list" where
  "insertIntoBlock p indexToInsert items block = (\<lambda>(s, newNodes).
     (let pageEndRow = getEndRow p (heap s ! block)
      in if pageEndRow \<le> indexToInsert then (s, newNodes)
         else (let s1 = moveItemsDown p block indexToInsert (int (length items)) s;
                   (newNodesThisPage, s2) = insertItems p block indexToInsert items s1
               in (s2, newNodes @ newNodesThisPage))))"

definition insertItemsAtIndex :: "cacheParams \<Rightarrow> int \<Rightarrow> 'a list \<Rightarrow> 'a cache \<Rightarrow> 'a cache" where
  "insertItemsAtIndex p indexToInsert items s =
     (let (s1, newNodes) = forEachBlockInReverseOrder (insertIntoBlock p indexToInsert items) s (s, []);
          s2 = (if isMaxRowFound s1
                then hack_setVirtualRowCount (getVirtualRowCount s1 + int (length items)) s1
                else s1);
          s3 = dispatchModelUpdated s2
      in dispatchEvent (ItemsAdded newNodes) s3)"

text \<open>\<^verbatim>\<open>refreshCache\<close> and \<^verbatim>\<open>purgeCache\<close>, lines 181-189.\<close>

definition refreshCache :: "cacheParams \<Rightarrow> 'a cache \<Rightarrow> 'a cache" where
  "refreshCache p s = checkBlockToLoad p (forEachBlockInOrder (\<lambda>block s'. setDirty block s') s s)"

definition purgeCache :: "'a cache \<Rightarrow> 'a cache" where
  "purgeCache s =
     dispatchModelUpdated (forEachBlockInOrder (\<lambda>block s'. removeBlockFromCache (Some block) s') s s)"

section \<open>Well-formed caches\<close>

text \<open>
  The invariant that the constructor establishes and every operation keeps: the page
  size is positive; the keys of the block map are unique and no two keys share a block
  object; every key refers to an object of the store whose block number is the key and
  which has \<open>pageSize\<close> slots.
\<close>

definition residentOk :: "cacheParams \<Rightarrow> 'a cache \<Rightarrow> int \<times> ref \<Rightarrow> bool" where
  "residentOk p s = (\<lambda>(n, r).
     r < length (heap s) \<and> pageNumber (heap s ! r) = n
       \<and> length (rowNodes (heap s ! r)) = nat (pageSize p))"

definition wellFormed :: "cacheParams \<Rightarrow> 'a cache \<Rightarrow> bool" where
  "wellFormed p s \<longleftrightarrow>
     0 < pageSize p \<and> distinct (map fst (blocks s)) \<and> distinct (map snd (blocks s))
       \<and> list_all (residentOk p s) (blocks s)"

text \<open>The content of the cache at an absolute row position: the slot of the resident
  block that owns the position, or nothing when no such block is resident.\<close>

definition slotAt :: "cacheParams \<Rightarrow> 'a cache \<Rightarrow> int \<Rightarrow> 'a rowNode option" where
  "slotAt p s i =
     (case getBlock s (i div pageSize p) of
        None \<Rightarrow> None
      | Some r \<Rightarrow> slotRead (heap s ! r) (i - getStartRow p (heap s ! r)))"

section \<open>Notions of the statements and proofs, and example caches\<close>

text \<open>The frame of the row operations: everything of the cache but the slots, flags and
  stamps of the block objects and the two counters.\<close>

definition sameFrame :: "'a cache \<Rightarrow> 'a cache \<Rightarrow> bool" where
  "sameFrame s s' \<longleftrightarrow>
     blocks s' = blocks s \<and> virtualRowCount s' = virtualRowCount s
       \<and> maxRowFound s' = maxRowFound s \<and> active s' = active s \<and> events s' = events s
       \<and> loadCompleteCalls s' = loadCompleteCalls s
       \<and> map pageNumber (heap s') = map pageNumber (heap s)
       \<and> map (\<lambda>b. length (rowNodes b)) (heap s') = map (\<lambda>b. length (rowNodes b)) (heap s)
       \<and> map listeners (heap s') = map listeners (heap s)"

text \<open>Concrete caches for the examples: pages of two rows, no bound on the number of
  blocks, every block in view.\<close>

definition exampleParams :: cacheParams where
  "exampleParams = \<lparr>pageSize = 2, maxBlocksInCache = None, inView = (\<lambda>n. True)\<rparr>"

definition inactiveCache :: "nat cache" where
  "inactiveCache = (init exampleParams newCache)\<lparr>active := False\<rparr>"

text \<open>The cache in the middle of \<^verbatim>\<open>createBlock\<close>: the new block is in the store, has its
  listener and is in the map.\<close>

definition withNewBlock :: "cacheParams \<Rightarrow> int \<Rightarrow> 'a cache \<Rightarrow> 'a cache" where
  "withNewBlock p n s =
     s\<lparr>heap := heap s @ [(newInfiniteBlock p n)\<lparr>listeners := [OnPageLoaded]\<rparr>],
       blocks := blocks s @ [(n, length (heap s))]\<rparr>"

text \<open>Concrete caches for the eviction examples: a bound of two blocks with two blocks
  resident (block 0 read first, then block 1), and a bound of zero blocks.\<close>

definition boundedParams :: cacheParams where
  "boundedParams = \<lparr>pageSize = 2, maxBlocksInCache = Some 2, inView = (\<lambda>n. True)\<rparr>"

definition twoBlockCache :: "nat cache" where
  "twoBlockCache = snd (getRow boundedParams 2 False (init boundedParams newCache))"

definition zeroBoundParams :: cacheParams where
  "zeroBoundParams = \<lparr>pageSize = 2, maxBlocksInCache = Some 0, inView = (\<lambda>n. True)\<rparr>"

text \<open>A pass of \<^verbatim>\<open>getRow\<close> calls over a list of row indices, as the rendering layer makes
  them: the rows returned, in order, and the cache after the pass.\<close>

fun getRows :: "cacheParams \<Rightarrow> int list \<Rightarrow> 'a cache \<Rightarrow> 'a rowNode option list \<times> 'a cache" where
  "getRows p [] s = ([], s)"
| "getRows p (i # is) s =
     (let (v, s1) = getRow p i False s; (vs, s2) = getRows p is s1 in (v # vs, s2))"

text \<open>The cache of the insertion example: pages of two rows, blocks 0 and 1 resident and
  loaded with the rows \<open>r0, r1\<close> and \<open>r2, r3\<close>; the flag says whether the end of the
  dataset is known. It is the cache after the first two blocks were requested and their
  fetches resolved.\<close>

definition fourRowCache :: "bool \<Rightarrow> string cache" where
  "fourRowCache endKnown =
     (fetchResolved exampleParams 1 (FetchSuccess [''r2'', ''r3''])
        (fetchResolved exampleParams 0 (FetchSuccess [''r0'', ''r1''])
           (snd (getRow exampleParams 2 False (init exampleParams newCache)))))
     \<lparr>virtualRowCount := 4, maxRowFound := endKnown\<rparr>"

text \<open>The same cache with block 2 resident as well (requested, not yet loaded).\<close>

definition fourRowCacheWithBlock2 :: "bool \<Rightarrow> string cache" where
  "fourRowCacheWithBlock2 endKnown = snd (getRow exampleParams 4 False (fourRowCache endKnown))"

text \<open>What \<^verbatim>\<open>moveItemsDown\<close> writes for a source row: the row found, or a blank when
  \<^verbatim>\<open>getRow\<close> found none.\<close>

definition orBlank :: "'a rowNode option \<Rightarrow> 'a rowNode" where
  "orBlank v = (case v of None \<Rightarrow> Blank | Some node \<Rightarrow> node)"

text \<open>The items of an insertion whose target row lies in the row range \<open>[a, b)\<close>, when the
  first item of the list goes to row \<open>pos\<close>; and the fresh row identities materialised
  for a list of items, numbered from the next free identity.\<close>

fun itemsInRange :: "int \<Rightarrow> int \<Rightarrow> int \<Rightarrow> 'a list \<Rightarrow> 'a list" where
  "itemsInRange a b pos [] = []"
| "itemsInRange a b pos (x # xs) =
     (if a \<le> pos \<and> pos < b then x # itemsInRange a b (pos + 1) xs
      else itemsInRange a b (pos + 1) xs)"

fun freshNodes :: "nat \<Rightarrow> 'a list \<Rightarrow> 'a rowNode list" where
  "freshNodes firstId [] = []"
| "freshNodes firstId (x # xs) = Node firstId x # freshNodes (Suc firstId) xs"

text \<open>The effect of visiting the resident blocks \<open>bs\<close> (pairs of block number and block
  object) during an insertion of \<open>items\<close> at \<open>idx\<close>, from the cache \<open>s\<close> and the list \<open>acc\<close>
  of new nodes to the result \<open>res\<close>: rows outside the visited blocks or before \<open>idx\<close> are as
  they were; a row of a visited block at or beyond \<open>idx + length items\<close> holds what the
  cache held \<open>length items\<close> rows before it at the start (a blank if there was nothing);
  the new nodes are fresh identities for the items that fall in the visited blocks, block
  by block; a visited block is dirty if it was or if one of its shift sources was missing.\<close>

definition shiftedOver ::
  "cacheParams \<Rightarrow> int \<Rightarrow> 'a list \<Rightarrow> (int \<times> ref) list \<Rightarrow> 'a cache \<Rightarrow> 'a rowNode list
     \<Rightarrow> 'a cache \<times> 'a rowNode list \<Rightarrow> bool" where
  "shiftedOver p idx items bs s acc res \<longleftrightarrow>
     wellFormed p (fst res) \<and> blocks (fst res) = blocks s
   \<and> (\<forall>q. q div pageSize p \<notin> fst ` set bs \<or> q < idx \<longrightarrow> slotAt p (fst res) q = slotAt p s q)
   \<and> (\<forall>q. q div pageSize p \<in> fst ` set bs \<and> idx + int (length items) \<le> q \<longrightarrow>
          slotAt p (fst res) q = Some (orBlank (slotAt p s (q - int (length items)))))
   \<and> snd res = acc @ freshNodes (nextNodeId s)
        (concat (map (\<lambda>(n, r). itemsInRange (n * pageSize p) (n * pageSize p + pageSize p) idx items) bs))
   \<and> nextNodeId (fst res) = nextNodeId s
        + length (concat (map (\<lambda>(n, r). itemsInRange (n * pageSize p) (n * pageSize p + pageSize p) idx items) bs))
   \<and> (\<forall>r'. dirty (heap (fst res) ! r') =
          (dirty (heap s ! r') \<or>
           (\<exists>n q. (n, r') \<in> set bs \<and> q div pageSize p = n \<and> idx + int (length items) \<le> q
                 \<and> slotAt p s (q - int (length items)) = None)))"

text \<open>A cache in which only block 1 is resident: the shift of its first row reads from
  block 0, which was never created.\<close>

definition onlyBlock1Cache :: "nat cache" where
  "onlyBlock1Cache = snd (getRow exampleParams 2 False newCache)"

section \<open>Frame lemmas\<close>

lemma sameFrame_refl [simp]: "sameFrame s s"
  by (simp add: sameFrame_def)

lemma sameFrame_trans: "sameFrame s s1 \<Longrightarrow> sameFrame s1 s2 \<Longrightarrow> sameFrame s s2"
  by (simp add: sameFrame_def)

lemma map_update_same:
  assumes "f y = f (xs ! r)"
  shows "map f (xs[r := y]) = map f xs"
proof (cases "r < length xs")
  case True
  then have "(map f xs) ! r = f (xs ! r)" by simp
  with assms show ?thesis by (metis list_update_id map_update)
next
  case False
  then have "xs[r := y] = xs" by (intro list_update_beyond) simp
  then show ?thesis by simp
qed

lemma sameFrame_updBlock:
  assumes "pageNumber (f (heap s ! r)) = pageNumber (heap s ! r)"
    and "length (rowNodes (f (heap s ! r))) = length (rowNodes (heap s ! r))"
    and "listeners (f (heap s ! r)) = listeners (heap s ! r)"
  shows "sameFrame s (updBlock r f s)"
  using assms by (simp add: sameFrame_def updBlock_def map_update_same)

lemma slotWrite_fields [simp]:
  "pageNumber (slotWrite i v b) = pageNumber b"
  "length (rowNodes (slotWrite i v b)) = length (rowNodes b)"
  "listeners (slotWrite i v b) = listeners b"
  "dirty (slotWrite i v b) = dirty b"
  "state (slotWrite i v b) = state b"
  "lastAccessed (slotWrite i v b) = lastAccessed b"
  by (simp_all add: slotWrite_def)

lemma requestLoad_fields [simp]:
  "pageNumber (requestLoad b) = pageNumber b"
  "rowNodes (requestLoad b) = rowNodes b"
  "listeners (requestLoad b) = listeners b"
  "dirty (requestLoad b) = dirty b"
  "lastAccessed (requestLoad b) = lastAccessed b"
  by (simp_all add: requestLoad_def)

lemma sameFrame_accessSeq: "sameFrame s (s\<lparr>accessSeq := t\<rparr>)"
  by (simp add: sameFrame_def)

lemma sameFrame_nextNodeId: "sameFrame s (s\<lparr>nextNodeId := t\<rparr>)"
  by (simp add: sameFrame_def)

lemma sameFrame_block_getRow: "sameFrame s (snd (block_getRow p r i s))"
  unfolding block_getRow_def Let_def snd_conv
  by (rule sameFrame_trans [OF sameFrame_accessSeq sameFrame_updBlock]) simp_all

lemma sameFrame_setRowNode: "sameFrame s (setRowNode p r i v s)"
  unfolding setRowNode_def by (rule sameFrame_updBlock) simp_all

lemma sameFrame_setBlankRowNode: "sameFrame s (setBlankRowNode p r i s)"
  unfolding setBlankRowNode_def by (rule sameFrame_updBlock) simp_all

lemma sameFrame_setDirty: "sameFrame s (setDirty r s)"
  unfolding setDirty_def by (rule sameFrame_updBlock) simp_all

lemma sameFrame_setNewData: "sameFrame s (snd (setNewData p r i x s))"
  unfolding setNewData_def Let_def snd_conv
  by (rule sameFrame_trans [OF sameFrame_nextNodeId sameFrame_updBlock]) simp_all

lemma sameFrame_getRow_noCreate: "sameFrame s (snd (getRow p i True s))"
  by (simp add: getRow_def Let_def sameFrame_block_getRow split: option.split)

lemma sameFrame_moveItemsDown_body: "sameFrame s (moveItemsDown_body p page l m c s)"
proof (cases "c < l")
  case True
  then show ?thesis by (simp add: moveItemsDown_body_def)
next
  case False
  obtain node s1 where g: "getRow p (c - m) True s = (node, s1)" by (cases "getRow p (c - m) True s")
  have f1: "sameFrame s s1" using sameFrame_getRow_noCreate [of s p "c - m"] g by simp
  show ?thesis
  proof (cases node)
    case None
    have "sameFrame s1 (setDirty page (setBlankRowNode p page c s1))"
      by (rule sameFrame_trans [OF sameFrame_setBlankRowNode sameFrame_setDirty])
    with f1 None g False show ?thesis
      by (simp add: moveItemsDown_body_def sameFrame_trans [OF f1])
  next
    case (Some v)
    with f1 g False show ?thesis
      by (simp add: moveItemsDown_body_def sameFrame_trans [OF f1 sameFrame_setRowNode])
  qed
qed

lemma sameFrame_moveItemsDown_loop: "sameFrame s (moveItemsDown_loop p page st l m c s)"
proof (induction p page st l m c s rule: moveItemsDown_loop.induct)
  case (1 p page st l m c s)
  show ?case
  proof (cases "c \<ge> st")
    case True
    from 1 [OF True] sameFrame_moveItemsDown_body [of s p page l m c] True
    show ?thesis
      by (subst moveItemsDown_loop.simps) (auto intro: sameFrame_trans)
  next
    case False
    then show ?thesis by (subst moveItemsDown_loop.simps) simp
  qed
qed

lemma sameFrame_moveItemsDown: "sameFrame s (moveItemsDown p page i m s)"
  by (simp add: moveItemsDown_def Let_def sameFrame_moveItemsDown_loop)

lemma sameFrame_insertItems_loop:
  "sameFrame s (snd (insertItems_loop p block a b i k items (acc, s)))"
proof (induction items arbitrary: k acc s)
  case Nil
  then show ?case by simp
next
  case (Cons x items)
  show ?case
  proof (cases "i + k \<ge> a \<and> i + k < b")
    case True
    obtain n s1 where g: "setNewData p block (i + k) x s = (n, s1)" by (cases "setNewData p block (i + k) x s")
    have "sameFrame s s1" using sameFrame_setNewData [of s p block "i + k" x] g by simp
    with True g Cons.IH [of s1 "k + 1" "acc @ [n]"] show ?thesis
      by (auto simp: Let_def intro: sameFrame_trans)
  next
    case False
    with Cons.IH [of s "k + 1" acc] show ?thesis by (auto simp: Let_def)
  qed
qed

lemma sameFrame_insertItems: "sameFrame s (snd (insertItems p block i items s))"
  by (simp add: insertItems_def Let_def sameFrame_insertItems_loop)

lemma sameFrame_insertIntoBlock: "sameFrame s (fst (insertIntoBlock p i items block (s, acc)))"
proof -
  obtain ns s2 where g: "insertItems p block i items (moveItemsDown p block i (int (length items)) s) = (ns, s2)"
    by (cases "insertItems p block i items (moveItemsDown p block i (int (length items)) s)")
  have "sameFrame (moveItemsDown p block i (int (length items)) s) s2"
    using sameFrame_insertItems [of "moveItemsDown p block i (int (length items)) s" p block i items] g by simp
  then have "sameFrame s s2" by (rule sameFrame_trans [OF sameFrame_moveItemsDown])
  with g show ?thesis by (simp add: insertIntoBlock_def Let_def)
qed

lemma sameFrame_fold_insertIntoBlock:
  "sameFrame s (fst (fold (insertIntoBlock p i items) rs (s, acc)))"
proof (induction rs arbitrary: s acc)
  case Nil
  then show ?case by simp
next
  case (Cons r rs)
  obtain s1 acc1 where g: "insertIntoBlock p i items r (s, acc) = (s1, acc1)"
    by (cases "insertIntoBlock p i items r (s, acc)")
  have "sameFrame s s1" using sameFrame_insertIntoBlock [of s p i items r acc] g by simp
  with Cons.IH [of s1 acc1] g show ?case by (auto intro: sameFrame_trans)
qed

lemma blocks_removeBlockFromCache:
  "blocks (removeBlockFromCache (Some r) s) = AList.delete (pageNumber (heap s ! r)) (blocks s)"
  by (simp add: removeBlockFromCache_def removeBlock_def)

lemma removeBlockFromCache_Some:
  "removeBlockFromCache (Some r) s = s\<lparr>blocks := AList.delete (pageNumber (heap s ! r)) (blocks s)\<rparr>"
  by (simp add: removeBlockFromCache_def removeBlock_def)

lemma fold_removeBlockFromCache:
  "fold (\<lambda>block s'. removeBlockFromCache (Some block) s') rs s =
     s\<lparr>blocks := filter (\<lambda>(n, r). n \<notin> (\<lambda>r. pageNumber (heap s ! r)) ` set rs) (blocks s)\<rparr>"
proof (induction rs arbitrary: s)
  case Nil
  then show ?case by simp
next
  case (Cons r rs)
  let ?s1 = "removeBlockFromCache (Some r) s"
  have h: "heap ?s1 = heap s" and b: "blocks ?s1 = AList.delete (pageNumber (heap s ! r)) (blocks s)"
    by (simp_all add: removeBlockFromCache_Some)
  have e: "filter (\<lambda>(n, r'). n \<notin> (\<lambda>r. pageNumber (heap s ! r)) ` set rs) (AList.delete (pageNumber (heap s ! r)) (blocks s))
      = filter (\<lambda>(n, r'). n \<notin> (\<lambda>r. pageNumber (heap s ! r)) ` set (r # rs)) (blocks s)"
    by (auto simp: AList.delete_eq intro: filter_cong)
  have "fold (\<lambda>block s'. removeBlockFromCache (Some block) s') (r # rs) s
      = fold (\<lambda>block s'. removeBlockFromCache (Some block) s') rs ?s1" by simp
  also have "\<dots> = ?s1\<lparr>blocks := filter (\<lambda>(n, r'). n \<notin> (\<lambda>r. pageNumber (heap ?s1 ! r)) ` set rs) (blocks ?s1)\<rparr>"
    by (rule Cons.IH)
  also have "\<dots> = s\<lparr>blocks := filter (\<lambda>(n, r'). n \<notin> (\<lambda>r. pageNumber (heap s ! r)) ` set (r # rs)) (blocks s)\<rparr>"
    unfolding h b e by (simp add: removeBlockFromCache_Some)
  finally show ?case .
qed

lemma residentOk_pageNumber:
  "wellFormed p s \<Longrightarrow> (n, r) \<in> set (blocks s) \<Longrightarrow> pageNumber (heap s ! r) = n"
  by (auto simp: wellFormed_def residentOk_def list_all_iff)

lemma purgeCache_eq:
  assumes "wellFormed p s"
  shows "purgeCache s = s\<lparr>blocks := [], events := events s @ (if active s then [ModelUpdated] else [])\<rparr>"
proof -
  have "filter (\<lambda>(n, r). n \<notin> (\<lambda>r. pageNumber (heap s ! r)) ` set (map snd (blocks s))) (blocks s) = []"
  proof -
    have "\<And>n r. (n, r) \<in> set (blocks s) \<Longrightarrow> n \<in> (\<lambda>r. pageNumber (heap s ! r)) ` set (map snd (blocks s))"
    proof -
      fix n r assume m: "(n, r) \<in> set (blocks s)"
      then have "pageNumber (heap s ! r) = n" by (rule residentOk_pageNumber [OF assms])
      moreover from m have "r \<in> set (map snd (blocks s))" by force
      ultimately show "n \<in> (\<lambda>r. pageNumber (heap s ! r)) ` set (map snd (blocks s))" by blast
    qed
    then show ?thesis by (auto simp: filter_empty_conv)
  qed
  then show ?thesis
    by (simp add: purgeCache_def forEachBlockInOrder_def blocksInOrder_def fold_removeBlockFromCache
        dispatchModelUpdated_def isActive_def dispatchEvent_def)
qed

lemma wellFormed_purged: "wellFormed p s \<Longrightarrow> wellFormed p (s\<lparr>blocks := [], events := es\<rparr>)"
  by (simp add: wellFormed_def)

lemma getRow_empty:
  assumes "blocks s = []"
  shows "blocks (snd (getRow p i False s)) = [(i div pageSize p, length (heap s))]"
  using assms
  by (simp add: getRow_def getBlock_def createBlock_def Let_def block_getRow_def updBlock_def
      setBlock_def addEventListener_def needToPurge_def getBlockCount_def removeBlockFromCache_def
      findLeastRecentlyUsedPage_def forEachBlockInOrder_def blocksInOrder_def lruStep_def
      checkBlockToLoad_def split: option.split)

text \<open>The definitions that evaluate a call of \<^verbatim>\<open>getRow\<close> on a concrete cache.\<close>

lemmas cache_defs =
  getRow_def getBlock_def createBlock_def Let_def block_getRow_def updBlock_def
  setBlock_def addEventListener_def needToPurge_def getBlockCount_def removeBlockFromCache_def
  findLeastRecentlyUsedPage_def forEachBlockInOrder_def blocksInOrder_def lruStep_def
  checkBlockToLoad_def newInfiniteBlock_def requestLoad_def removeBlock_def
  slotRead_def getStartRow_def getEndRow_def

text \<open>The scan of \<^verbatim>\<open>findLeastRecentlyUsedPage\<close> over a list of blocks: among the blocks
  other than the excluded one, it returns the first of those with the least stamp.\<close>

lemma lruScan_first_least:
  fixes s :: "'a cache"
  defines "la \<equiv> \<lambda>r. lastAccessed (heap s ! r)"
  shows "(filter (\<lambda>r. r \<noteq> x) rs = [] \<and> fold (lruStep s x) rs None = None)
     \<or> (\<exists>j < length (filter (\<lambda>r. r \<noteq> x) rs).
           fold (lruStep s x) rs None = Some (filter (\<lambda>r. r \<noteq> x) rs ! j)
         \<and> (\<forall>i < length (filter (\<lambda>r. r \<noteq> x) rs).
               la (filter (\<lambda>r. r \<noteq> x) rs ! j) \<le> la (filter (\<lambda>r. r \<noteq> x) rs ! i))
         \<and> (\<forall>i < j. la (filter (\<lambda>r. r \<noteq> x) rs ! j) < la (filter (\<lambda>r. r \<noteq> x) rs ! i)))"
    (is "?P rs")
proof (induction rs rule: rev_induct)
  case Nil
  then show ?case by simp
next
  case (snoc r rs)
  let ?cs = "filter (\<lambda>r. r \<noteq> x) rs"
  let ?res = "fold (lruStep s x) rs None"
  have step: "fold (lruStep s x) (rs @ [r]) None = lruStep s x r ?res" by simp
  show ?case
  proof (cases "r = x")
    case True
    then have "filter (\<lambda>r. r \<noteq> x) (rs @ [r]) = ?cs" "lruStep s x r ?res = ?res"
      by (simp_all add: lruStep_def)
    with snoc.IH step show ?thesis by simp
  next
    case False
    then have cs': "filter (\<lambda>r. r \<noteq> x) (rs @ [r]) = ?cs @ [r]" by simp
    from snoc.IH show ?thesis
    proof (elim disjE conjE exE)
      assume "?cs = []" "?res = None"
      with False have "lruStep s x r ?res = Some r" by (simp add: lruStep_def)
      with \<open>?cs = []\<close> False show ?thesis unfolding step cs' by simp
    next
      fix j
      assume j: "j < length ?cs" and res: "?res = Some (?cs ! j)"
        and least: "\<forall>i < length ?cs. la (?cs ! j) \<le> la (?cs ! i)"
        and first: "\<forall>i < j. la (?cs ! j) < la (?cs ! i)"
      show ?thesis
      proof (cases "la r < la (?cs ! j)")
        case True
        with False res have r': "lruStep s x r ?res = Some r" by (simp add: lruStep_def la_def)
        have "length ?cs < length (?cs @ [r])" by simp
        moreover have "lruStep s x r ?res = Some ((?cs @ [r]) ! length ?cs)" using r' by simp
        moreover have "\<forall>i < length (?cs @ [r]). la ((?cs @ [r]) ! length ?cs) \<le> la ((?cs @ [r]) ! i)"
          using True least by (auto simp: nth_append less_Suc_eq intro: order.trans less_imp_le)
        moreover have "\<forall>i < length ?cs. la ((?cs @ [r]) ! length ?cs) < la ((?cs @ [r]) ! i)"
          using True least by (auto simp: nth_append intro: less_le_trans)
        ultimately show ?thesis unfolding step cs' by blast
      next
        case False
        with \<open>r \<noteq> x\<close> res have r': "lruStep s x r ?res = Some (?cs ! j)" by (simp add: lruStep_def la_def)
        have "j < length (?cs @ [r])" using j by simp
        moreover have "lruStep s x r ?res = Some ((?cs @ [r]) ! j)" using r' j by (simp add: nth_append)
        moreover have "\<forall>i < length (?cs @ [r]). la ((?cs @ [r]) ! j) \<le> la ((?cs @ [r]) ! i)"
          using False least j by (auto simp: nth_append less_Suc_eq)
        moreover have "\<forall>i < j. la ((?cs @ [r]) ! j) < la ((?cs @ [r]) ! i)"
          using first j by (auto simp: nth_append)
        ultimately show ?thesis unfolding step cs' by blast
      qed
    qed
  qed
qed

lemma sameFrame_fold_requestLoad:
  "sameFrame s (fold (\<lambda>r s'. if P s' r then updBlock r requestLoad s' else s') rs s)"
proof (induction rs arbitrary: s)
  case Nil
  then show ?case by simp
next
  case (Cons r rs)
  have "sameFrame s (if P s r then updBlock r requestLoad s else s)"
    by (simp add: sameFrame_updBlock)
  with Cons.IH show ?case by (auto intro: sameFrame_trans simp del: sameFrame_refl)
qed

lemma sameFrame_checkBlockToLoad: "sameFrame s (checkBlockToLoad p s)"
  unfolding checkBlockToLoad_def forEachBlockInOrder_def
  by (rule sameFrame_fold_requestLoad [where P = "\<lambda>s' r. inView p (pageNumber (heap s' ! r))"])

lemma rowNodes_fold_requestLoad:
  "map rowNodes (heap (fold (\<lambda>r s'. if P s' r then updBlock r requestLoad s' else s') rs s)) = map rowNodes (heap s)"
proof (induction rs arbitrary: s)
  case Nil
  then show ?case by simp
next
  case (Cons r rs)
  have "map rowNodes (heap (if P s r then updBlock r requestLoad s else s)) = map rowNodes (heap s)"
    by (simp add: updBlock_def map_update_same)
  with Cons.IH show ?case by simp
qed

lemma rowNodes_checkBlockToLoad: "map rowNodes (heap (checkBlockToLoad p s)) = map rowNodes (heap s)"
  unfolding checkBlockToLoad_def forEachBlockInOrder_def
  by (rule rowNodes_fold_requestLoad [where P = "\<lambda>s' r. inView p (pageNumber (heap s' ! r))"])

lemma lastAccessed_fold_requestLoad:
  "map lastAccessed (heap (fold (\<lambda>r s'. if P s' r then updBlock r requestLoad s' else s') rs s)) = map lastAccessed (heap s)"
proof (induction rs arbitrary: s)
  case Nil
  then show ?case by simp
next
  case (Cons r rs)
  have "map lastAccessed (heap (if P s r then updBlock r requestLoad s else s)) = map lastAccessed (heap s)"
    by (simp add: updBlock_def map_update_same)
  with Cons.IH show ?case by simp
qed

text \<open>Well-formedness depends on the frame only.\<close>

lemma sameFrame_length: "sameFrame s s' \<Longrightarrow> length (heap s') = length (heap s)"
proof -
  assume "sameFrame s s'"
  then have "map pageNumber (heap s') = map pageNumber (heap s)" by (simp add: sameFrame_def)
  then have "length (map pageNumber (heap s')) = length (map pageNumber (heap s))" by simp
  then show ?thesis by simp
qed

lemma map_eq_nth: "map f xs = map f ys \<Longrightarrow> r < length ys \<Longrightarrow> f (xs ! r) = f (ys ! r)"
proof -
  assume e: "map f xs = map f ys" and r: "r < length ys"
  from e have "length (map f xs) = length (map f ys)" by simp
  with r have r': "r < length xs" by simp
  from e have "map f xs ! r = map f ys ! r" by simp
  with r r' show ?thesis by simp
qed

lemma sameFrame_pageNumber:
  "sameFrame s s' \<Longrightarrow> r < length (heap s) \<Longrightarrow> pageNumber (heap s' ! r) = pageNumber (heap s ! r)"
  by (rule map_eq_nth) (simp_all add: sameFrame_def)

lemma sameFrame_rowLength:
  "sameFrame s s' \<Longrightarrow> r < length (heap s) \<Longrightarrow> length (rowNodes (heap s' ! r)) = length (rowNodes (heap s ! r))"
  by (rule map_eq_nth [where f = "\<lambda>b. length (rowNodes b)"]) (simp_all add: sameFrame_def)

lemma sameFrame_listeners:
  "sameFrame s s' \<Longrightarrow> r < length (heap s) \<Longrightarrow> listeners (heap s' ! r) = listeners (heap s ! r)"
  by (rule map_eq_nth) (simp_all add: sameFrame_def)

lemma sameFrame_wellFormed:
  assumes "sameFrame s s'" and "wellFormed p s"
  shows "wellFormed p s'"
proof -
  have b: "blocks s' = blocks s" using assms(1) by (simp add: sameFrame_def)
  have "residentOk p s' nr" if "nr \<in> set (blocks s)" for nr
  proof -
    obtain n r where nr: "nr = (n, r)" by (cases nr)
    with that assms(2) have ok: "r < length (heap s)" "pageNumber (heap s ! r) = n"
      "length (rowNodes (heap s ! r)) = nat (pageSize p)"
      by (auto simp: wellFormed_def residentOk_def list_all_iff)
    with assms(1) show ?thesis
      by (simp add: nr residentOk_def sameFrame_length sameFrame_pageNumber sameFrame_rowLength)
  qed
  with assms(2) show ?thesis by (simp add: wellFormed_def b list_all_iff)
qed

lemma update_fresh_key: "k \<notin> fst ` set al \<Longrightarrow> AList.update k v al = al @ [(k, v)]"
  by (induction al) auto

lemma getBlock_None_iff: "getBlock s n = None \<longleftrightarrow> n \<notin> fst ` set (blocks s)"
  by (simp add: getBlock_def map_of_eq_None_iff)

lemma wellFormed_refs:
  "wellFormed p s \<Longrightarrow> (n, r) \<in> set (blocks s) \<Longrightarrow> r < length (heap s)"
  by (auto simp: wellFormed_def residentOk_def list_all_iff)

lemma wellFormed_rowLength:
  "wellFormed p s \<Longrightarrow> (n, r) \<in> set (blocks s) \<Longrightarrow> length (rowNodes (heap s ! r)) = nat (pageSize p)"
  by (auto simp: wellFormed_def residentOk_def list_all_iff)

lemma wellFormed_getBlock:
  "wellFormed p s \<Longrightarrow> getBlock s n = Some r \<longleftrightarrow> (n, r) \<in> set (blocks s)"
  by (simp add: wellFormed_def getBlock_def)

lemma wellFormed_delete:
  assumes "wellFormed p s"
  shows "wellFormed p (s\<lparr>blocks := AList.delete k (blocks s)\<rparr>)"
proof -
  have "distinct (map fst (AList.delete k (blocks s)))"
    using assms by (simp add: wellFormed_def AList.distinct_delete)
  moreover have "distinct (map snd (AList.delete k (blocks s)))"
    using assms by (simp add: wellFormed_def AList.delete_eq distinct_map_filter)
  moreover have "list_all (residentOk p (s\<lparr>blocks := AList.delete k (blocks s)\<rparr>)) (AList.delete k (blocks s))"
    using assms by (auto simp: wellFormed_def residentOk_def list_all_iff AList.delete_eq)
  ultimately show ?thesis using assms by (simp add: wellFormed_def)
qed

lemma wellFormed_removeBlockFromCache:
  "wellFormed p s \<Longrightarrow> wellFormed p (removeBlockFromCache lru s)"
  by (cases lru) (simp_all add: removeBlockFromCache_def removeBlock_def wellFormed_delete)

lemma createBlock_unfold:
  assumes "getBlock s n = None"
  shows "createBlock p n s =
     (length (heap s),
      checkBlockToLoad p
        (if needToPurge p (withNewBlock p n s)
         then removeBlockFromCache (findLeastRecentlyUsedPage (withNewBlock p n s) (length (heap s))) (withNewBlock p n s)
         else withNewBlock p n s))"
proof -
  have k: "n \<notin> fst ` set (blocks s)" using assms by (simp add: getBlock_None_iff)
  have "setBlock n (length (heap s)) (addEventListener (length (heap s)) OnPageLoaded
          (s\<lparr>heap := heap s @ [newInfiniteBlock p n]\<rparr>)) = withNewBlock p n s"
    by (simp add: setBlock_def addEventListener_def updBlock_def withNewBlock_def
        update_fresh_key [OF k] newInfiniteBlock_def)
  then show ?thesis by (simp add: createBlock_def Let_def)
qed

lemma wellFormed_withNewBlock:
  assumes "wellFormed p s" and "getBlock s n = None"
  shows "wellFormed p (withNewBlock p n s)"
proof -
  have k: "n \<notin> fst ` set (blocks s)" using assms(2) by (simp add: getBlock_None_iff)
  have r: "length (heap s) \<notin> snd ` set (blocks s)"
    using wellFormed_refs [OF assms(1)] by force
  have old: "residentOk p (withNewBlock p n s) nr" if "nr \<in> set (blocks s)" for nr
    using that assms(1)
    by (cases nr) (auto simp: wellFormed_def residentOk_def list_all_iff withNewBlock_def nth_append)
  have new: "residentOk p (withNewBlock p n s) (n, length (heap s))"
    by (simp add: residentOk_def withNewBlock_def newInfiniteBlock_def)
  show ?thesis
    using assms(1) k r old new
    by (simp add: wellFormed_def list_all_iff) (auto simp: withNewBlock_def)
qed

lemma wellFormed_createBlock:
  assumes "wellFormed p s" and "getBlock s n = None"
  shows "wellFormed p (snd (createBlock p n s))"
  unfolding createBlock_unfold [OF assms(2)] snd_conv
  by (rule sameFrame_wellFormed [OF sameFrame_checkBlockToLoad])
     (simp add: wellFormed_removeBlockFromCache wellFormed_withNewBlock [OF assms])

lemma findLeastRecentlyUsedPage_other:
  "findLeastRecentlyUsedPage s x = Some l \<Longrightarrow> l \<in> snd ` set (blocks s) \<and> l \<noteq> x"
proof -
  assume a: "findLeastRecentlyUsedPage s x = Some l"
  have "fold (lruStep s x) rs None = Some l \<Longrightarrow> l \<in> set rs \<and> l \<noteq> x" for rs
  proof (induction rs rule: rev_induct)
    case Nil
    then show ?case by simp
  next
    case (snoc r rs)
    then show ?case by (auto simp: lruStep_def split: if_splits option.splits)
  qed
  from this [of "map snd (blocks s)"] a show ?thesis
    by (simp add: findLeastRecentlyUsedPage_def forEachBlockInOrder_def blocksInOrder_def)
qed

lemma createBlock_resident:
  assumes "wellFormed p s" and "getBlock s n = None"
  shows "getBlock (snd (createBlock p n s)) n = Some (length (heap s))"
proof -
  let ?m = "withNewBlock p n s"
  let ?lru = "findLeastRecentlyUsedPage ?m (length (heap s))"
  have wm: "wellFormed p ?m" by (rule wellFormed_withNewBlock [OF assms])
  have in_m: "(n, length (heap s)) \<in> set (blocks ?m)" by (simp add: withNewBlock_def)
  have "(n, length (heap s)) \<in> set (blocks (removeBlockFromCache ?lru ?m))"
  proof (cases ?lru)
    case None
    then show ?thesis using in_m by (simp add: removeBlockFromCache_def)
  next
    case (Some l)
    then have l: "l \<in> snd ` set (blocks ?m)" "l \<noteq> length (heap s)"
      using findLeastRecentlyUsedPage_other by blast+
    then obtain k where k: "(k, l) \<in> set (blocks ?m)" by force
    then have pk: "pageNumber (heap ?m ! l) = k" by (rule residentOk_pageNumber [OF wm])
    have "k \<noteq> n"
    proof
      assume "k = n"
      with k in_m wm have "l = length (heap s)"
        by (metis wellFormed_getBlock option.inject)
      with l show False by simp
    qed
    with in_m pk Some show ?thesis
      by (simp add: removeBlockFromCache_def removeBlock_def AList.delete_eq)
  qed
  then have "(n, length (heap s)) \<in> set (blocks (if needToPurge p ?m then removeBlockFromCache ?lru ?m else ?m))"
    using in_m by simp
  moreover have "blocks (checkBlockToLoad p s') = blocks s'" for s' :: "'a cache"
    using sameFrame_checkBlockToLoad [of s' p] by (simp add: sameFrame_def)
  ultimately have "(n, length (heap s)) \<in> set (blocks (snd (createBlock p n s)))"
    unfolding createBlock_unfold [OF assms(2)] snd_conv by simp
  then show ?thesis
    using wellFormed_getBlock [OF wellFormed_createBlock [OF assms]] by simp
qed

lemma length_delete_nth:
  "distinct (map fst bs) \<Longrightarrow> j < length bs \<Longrightarrow> Suc (length (AList.delete (fst (bs ! j)) bs)) = length bs"
proof (induction bs arbitrary: j)
  case Nil
  then show ?case by simp
next
  case (Cons x xs)
  show ?case
  proof (cases j)
    case 0
    with Cons.prems have "fst x \<notin> fst ` set xs" by simp
    then have "AList.delete (fst x) xs = xs" by (rule AList.delete_id)
    with 0 show ?thesis by (cases x) simp
  next
    case (Suc j')
    with Cons.prems have j': "j' < length xs" and d: "distinct (map fst xs)" by simp_all
    from Cons.prems Suc j' have "fst (xs ! j') \<noteq> fst x"
      by (metis distinct.simps(2) list.simps(9) nth_map nth_mem length_map)
    with Suc Cons.IH [OF d j'] show ?thesis by (cases x) simp
  qed
qed

lemma blocks_checkBlockToLoad: "blocks (checkBlockToLoad p s) = blocks s"
  using sameFrame_checkBlockToLoad [of s p] by (simp add: sameFrame_def)

lemma heap_withNewBlock_old:
  "r < length (heap s) \<Longrightarrow> heap (withNewBlock p n s) ! r = heap s ! r"
  by (simp add: withNewBlock_def nth_append)

lemma others_withNewBlock:
  assumes "wellFormed p s"
  shows "filter (\<lambda>r. r \<noteq> length (heap s)) (map snd (blocks (withNewBlock p n s))) = map snd (blocks s)"
proof -
  have "\<And>r. r \<in> set (map snd (blocks s)) \<Longrightarrow> r \<noteq> length (heap s)"
    using wellFormed_refs [OF assms] by force
  then have "filter (\<lambda>r. r \<noteq> length (heap s)) (map snd (blocks s)) = map snd (blocks s)"
    by (simp add: filter_id_conv)
  then show ?thesis by (simp add: withNewBlock_def)
qed

lemma block_range:
  assumes "0 < (ps :: int)"
  shows "i div ps * ps \<le> i" and "i < i div ps * ps + ps" and "0 \<le> i - i div ps * ps"
    and "i - i div ps * ps < ps"
proof -
  have e: "i = i div ps * ps + i mod ps" by simp
  have m: "0 \<le> i mod ps" "i mod ps < ps" using assms by simp_all
  show "i div ps * ps \<le> i" using e m by linarith
  show "i < i div ps * ps + ps" using e m by linarith
  show "0 \<le> i - i div ps * ps" using e m by linarith
  show "i - i div ps * ps < ps" using e m by linarith
qed

lemma heap_updBlock_same: "r < length (heap s) \<Longrightarrow> heap (updBlock r f s) ! r = f (heap s ! r)"
  by (simp add: updBlock_def)

lemma heap_updBlock_other: "r' \<noteq> r \<Longrightarrow> heap (updBlock r f s) ! r' = heap s ! r'"
  by (simp add: updBlock_def)

lemma block_getRow_served:
  assumes wf: "wellFormed p s" and g: "getBlock s (i div pageSize p) = Some r"
  shows "getBlock (snd (block_getRow p r i s)) (i div pageSize p) = Some r"
    and "pageNumber (heap (snd (block_getRow p r i s)) ! r) = i div pageSize p"
    and "rowNodes (heap (snd (block_getRow p r i s)) ! r) = rowNodes (heap s ! r)"
    and "lastAccessed (heap (snd (block_getRow p r i s)) ! r) = accessSeq (snd (block_getRow p r i s))"
    and "fst (block_getRow p r i s) = Some (rowNodes (heap s ! r) ! nat (i - i div pageSize p * pageSize p))"
proof -
  let ?s' = "snd (block_getRow p r i s)"
  have f: "sameFrame s ?s'" by (rule sameFrame_block_getRow)
  have m: "(i div pageSize p, r) \<in> set (blocks s)" using g wellFormed_getBlock [OF wf] by simp
  have r: "r < length (heap s)" by (rule wellFormed_refs [OF wf m])
  have pn: "pageNumber (heap s ! r) = i div pageSize p" by (rule residentOk_pageNumber [OF wf m])
  have len: "length (rowNodes (heap s ! r)) = nat (pageSize p)" by (rule wellFormed_rowLength [OF wf m])
  have ps: "0 < pageSize p" using wf by (simp add: wellFormed_def)
  show "getBlock ?s' (i div pageSize p) = Some r"
    using f g by (simp add: getBlock_def sameFrame_def)
  show pn': "pageNumber (heap ?s' ! r) = i div pageSize p"
    using sameFrame_pageNumber [OF f r] pn by simp
  have h: "heap ?s' ! r = requestLoad ((heap s ! r)\<lparr>lastAccessed := Suc (accessSeq s)\<rparr>)"
    using r by (simp add: block_getRow_def Let_def updBlock_def)
  show rn: "rowNodes (heap ?s' ! r) = rowNodes (heap s ! r)" by (simp add: h)
  show "lastAccessed (heap ?s' ! r) = accessSeq ?s'"
    by (simp add: h) (simp add: block_getRow_def Let_def updBlock_def)
  have "fst (block_getRow p r i s) = slotRead (heap ?s' ! r) (i - getStartRow p (heap ?s' ! r))"
    by (simp add: block_getRow_def Let_def)
  also have "\<dots> = Some (rowNodes (heap s ! r) ! nat (i - i div pageSize p * pageSize p))"
    using block_range [OF ps, of i] len
    by (simp add: slotRead_def getStartRow_def pn' rn)
  finally show "fst (block_getRow p r i s) = Some (rowNodes (heap s ! r) ! nat (i - i div pageSize p * pageSize p))" .
qed

lemma getRow_create_unfold:
  "getRow p i False s =
     (case getBlock s (i div pageSize p) of
        None \<Rightarrow> block_getRow p (fst (createBlock p (i div pageSize p) s)) i (snd (createBlock p (i div pageSize p) s))
      | Some r \<Rightarrow> block_getRow p r i s)"
  by (simp add: getRow_def Let_def split_beta split: option.split)

lemma getRow_served:
  assumes wf: "wellFormed p s"
  shows "\<exists>r s0. wellFormed p s0 \<and> getBlock s0 (i div pageSize p) = Some r
           \<and> getRow p i False s = block_getRow p r i s0
           \<and> (getBlock s (i div pageSize p) = None \<longrightarrow> r = length (heap s) \<and> s0 = snd (createBlock p (i div pageSize p) s))
           \<and> (getBlock s (i div pageSize p) \<noteq> None \<longrightarrow> getBlock s (i div pageSize p) = Some r \<and> s0 = s)"
proof (cases "getBlock s (i div pageSize p)")
  case None
  have "fst (createBlock p (i div pageSize p) s) = length (heap s)"
    by (simp add: createBlock_def Let_def)
  with None wellFormed_createBlock [OF wf None] createBlock_resident [OF wf None]
  show ?thesis by (simp add: getRow_create_unfold)
next
  case (Some r)
  with wf show ?thesis by (simp add: getRow_create_unfold)
qed

lemma createBlock_listeners:
  assumes "getBlock s n = None"
  shows "listeners (heap (snd (createBlock p n s)) ! length (heap s)) = [OnPageLoaded]"
proof -
  let ?m = "withNewBlock p n s"
  let ?x = "if needToPurge p ?m
            then removeBlockFromCache (findLeastRecentlyUsedPage ?m (length (heap s))) ?m else ?m"
  have h: "heap ?x = heap ?m"
    by (cases "findLeastRecentlyUsedPage ?m (length (heap s))")
       (simp_all add: removeBlockFromCache_def removeBlock_def)
  have l: "length (heap s) < length (heap ?x)" unfolding h by (simp add: withNewBlock_def)
  have "listeners (heap (checkBlockToLoad p ?x) ! length (heap s)) = listeners (heap ?x ! length (heap s))"
    by (rule sameFrame_listeners [OF sameFrame_checkBlockToLoad l])
  also have "\<dots> = [OnPageLoaded]" unfolding h by (simp add: withNewBlock_def)
  finally show ?thesis unfolding createBlock_unfold [OF assms] snd_conv .
qed

lemmas insert_defs =
  insertItemsAtIndex_def forEachBlockInReverseOrder_def blocksInReverseOrder_def insertIntoBlock_def
  moveItemsDown_def moveItemsDown_loop.simps moveItemsDown_body_def insertItems_def
  setRowNode_def setBlankRowNode_def setDirty_def setNewData_def slotWrite_def
  isMaxRowFound_def hack_setVirtualRowCount_def getVirtualRowCount_def dispatchModelUpdated_def
  isActive_def dispatchEvent_def

lemma fourRowCache_value:
  "fourRowCache endKnown =
     \<lparr>blocks = [(0, 0), (1, 1)],
      heap = [\<lparr>pageNumber = 0, state = Loaded, dirty = False,
                rowNodes = [Node 0 ''r0'', Node 1 ''r1''], lastAccessed = 1, listeners = [OnPageLoaded]\<rparr>,
              \<lparr>pageNumber = 1, state = Loaded, dirty = False,
                rowNodes = [Node 2 ''r2'', Node 3 ''r3''], lastAccessed = 2, listeners = [OnPageLoaded]\<rparr>],
      accessSeq = 2, nextNodeId = 4, virtualRowCount = 4, maxRowFound = endKnown, active = True,
      events = [], loadCompleteCalls = [(OnPageLoaded, 0), (OnPageLoaded, 1)]\<rparr>"
  by (simp add: fourRowCache_def init_def exampleParams_def newCache_def cache_defs fetchResolved_def
      notifyLoadComplete_def populate_def enumerate_eq_zip numeral_2_eq_2)

lemma fourRowCache_insert:
  "insertItemsAtIndex exampleParams 1 [''x''] (fourRowCache endKnown) =
     \<lparr>blocks = [(0, 0), (1, 1)],
      heap = [\<lparr>pageNumber = 0, state = Loaded, dirty = False,
                rowNodes = [Node 0 ''r0'', Node 4 ''x''], lastAccessed = 4, listeners = [OnPageLoaded]\<rparr>,
              \<lparr>pageNumber = 1, state = Loaded, dirty = False,
                rowNodes = [Node 1 ''r1'', Node 2 ''r2''], lastAccessed = 3, listeners = [OnPageLoaded]\<rparr>],
      accessSeq = 4, nextNodeId = 5, virtualRowCount = (if endKnown then 5 else 4),
      maxRowFound = endKnown, active = True,
      events = [ModelUpdated, ItemsAdded [Node 4 ''x'']],
      loadCompleteCalls = [(OnPageLoaded, 0), (OnPageLoaded, 1)]\<rparr>"
  by (simp add: fourRowCache_value exampleParams_def insert_defs cache_defs)

lemma fourRowCache_pass:
  "fst (getRows exampleParams [0, 1, 2, 3, 4] (insertItemsAtIndex exampleParams 1 [''x''] (fourRowCache endKnown))) =
     [Some (Node 0 ''r0''), Some (Node 4 ''x''), Some (Node 1 ''r1''), Some (Node 2 ''r2''), Some Blank]"
  unfolding fourRowCache_insert
  by (simp add: exampleParams_def cache_defs)

section \<open>The cache as a map from row positions to slots\<close>

lemma div_block: "0 < (ps :: int) \<Longrightarrow> n * ps \<le> q \<Longrightarrow> q < n * ps + ps \<Longrightarrow> q div ps = n"
proof -
  assume ps: "0 < ps" and lo: "n * ps \<le> q" and hi: "q < n * ps + ps"
  have "q = (q - n * ps) + n * ps" by simp
  then have "q div ps = ((q - n * ps) + n * ps) div ps" by simp
  also have "\<dots> = n + (q - n * ps) div ps" using ps by (intro div_mult_self1) simp
  also have "(q - n * ps) div ps = 0" using lo hi by (simp add: div_pos_pos_trivial)
  finally show ?thesis by simp
qed

lemma nth_updBlock:
  "heap (updBlock r f s) ! r' = (if r' = r \<and> r < length (heap s) then f (heap s ! r) else heap s ! r')"
proof (cases "r < length (heap s)")
  case True
  then show ?thesis by (simp add: updBlock_def nth_list_update)
next
  case False
  then have "(heap s)[r := f (heap s ! r)] = heap s" by (intro list_update_beyond) simp
  with False show ?thesis by (simp add: updBlock_def)
qed

lemma slotAt_updBlock_frame:
  assumes "\<And>b. rowNodes (f b) = rowNodes b" and "\<And>b. pageNumber (f b) = pageNumber b"
  shows "slotAt p (updBlock r f s) q = slotAt p s q"
proof -
  have b: "getBlock (updBlock r f s) = getBlock s" by (simp add: getBlock_def updBlock_def fun_eq_iff)
  have "rowNodes (heap (updBlock r f s) ! r') = rowNodes (heap s ! r')"
    "pageNumber (heap (updBlock r f s) ! r') = pageNumber (heap s ! r')" for r'
    using assms by (simp_all add: nth_updBlock)
  then show ?thesis
    by (simp add: slotAt_def b slotRead_def getStartRow_def split: option.split)
qed

lemma slotAt_accessSeq [simp]: "slotAt p (s\<lparr>accessSeq := t\<rparr>) q = slotAt p s q"
  by (simp add: slotAt_def getBlock_def cong: option.case_cong)

lemma slotAt_nextNodeId [simp]: "slotAt p (s\<lparr>nextNodeId := t\<rparr>) q = slotAt p s q"
  by (simp add: slotAt_def getBlock_def cong: option.case_cong)

lemma getRow_noCreate_value: "fst (getRow p i True s) = slotAt p s i"
proof (cases "getBlock s (i div pageSize p)")
  case None
  then show ?thesis by (simp add: getRow_def slotAt_def)
next
  case (Some r)
  let ?s1 = "updBlock r (\<lambda>b. requestLoad (b\<lparr>lastAccessed := Suc (accessSeq s)\<rparr>)) (s\<lparr>accessSeq := Suc (accessSeq s)\<rparr>)"
  have "rowNodes (heap ?s1 ! r) = rowNodes (heap s ! r)" "pageNumber (heap ?s1 ! r) = pageNumber (heap s ! r)"
    by (simp_all add: nth_updBlock)
  with Some show ?thesis
    by (simp add: getRow_def slotAt_def block_getRow_def Let_def slotRead_def getStartRow_def)
qed

lemma getRow_noCreate_slotAt: "slotAt p (snd (getRow p i True s)) q = slotAt p s q"
proof (cases "getBlock s (i div pageSize p)")
  case None
  then show ?thesis by (simp add: getRow_def)
next
  case (Some r)
  have "slotAt p (updBlock r (\<lambda>b. requestLoad (b\<lparr>lastAccessed := Suc (accessSeq s)\<rparr>))
          (s\<lparr>accessSeq := Suc (accessSeq s)\<rparr>)) q = slotAt p (s\<lparr>accessSeq := Suc (accessSeq s)\<rparr>) q"
    by (rule slotAt_updBlock_frame) simp_all
  with Some show ?thesis by (simp add: getRow_def block_getRow_def Let_def)
qed

lemma getRow_noCreate_missing:
  "getBlock s (i div pageSize p) = None \<Longrightarrow> getRow p i True s = (None, s)"
  by (simp add: getRow_def)

lemma slotAt_setDirty: "slotAt p (setDirty r s) q = slotAt p s q"
  unfolding setDirty_def by (rule slotAt_updBlock_frame) simp_all

lemma wellFormed_ref_key:
  assumes "wellFormed p s" and "(n, r) \<in> set (blocks s)" and "(n', r) \<in> set (blocks s)"
  shows "n' = n"
proof -
  have "inj_on snd (set (blocks s))" using assms(1) by (simp add: wellFormed_def distinct_map)
  from inj_onD [OF this _ assms(3) assms(2)] show ?thesis by simp
qed

text \<open>Writing the slot of a row of a resident block changes the cache at that row only.\<close>

lemma slotAt_write:
  assumes wf: "wellFormed p s" and m: "(n, r) \<in> set (blocks s)"
    and lo: "n * pageSize p \<le> c" and hi: "c < n * pageSize p + pageSize p"
  shows "slotAt p (updBlock r (\<lambda>b. slotWrite (c - getStartRow p b) v b) s) q =
         (if q = c then Some v else slotAt p s q)"
proof -
  let ?s' = "updBlock r (\<lambda>b. slotWrite (c - getStartRow p b) v b) s"
  have ps: "0 < pageSize p" using wf by (simp add: wellFormed_def)
  have r: "r < length (heap s)" by (rule wellFormed_refs [OF wf m])
  have pn: "pageNumber (heap s ! r) = n" by (rule residentOk_pageNumber [OF wf m])
  have len: "length (rowNodes (heap s ! r)) = nat (pageSize p)" by (rule wellFormed_rowLength [OF wf m])
  have cn: "c div pageSize p = n" by (rule div_block [OF ps lo hi])
  have b: "getBlock ?s' = getBlock s" by (simp add: getBlock_def updBlock_def fun_eq_iff)
  have gr: "getBlock s n = Some r" using wellFormed_getBlock [OF wf] m by simp
  show ?thesis
  proof (cases "getBlock s (q div pageSize p)")
    case None
    then have "q div pageSize p \<noteq> n" using gr by auto
    with cn have "q \<noteq> c" by auto
    moreover have "slotAt p ?s' q = slotAt p s q" unfolding slotAt_def b using None by simp
    ultimately show ?thesis by simp
  next
    case (Some r')
    show ?thesis
    proof (cases "r' = r")
      case True
      with Some have "(q div pageSize p, r) \<in> set (blocks s)" using wellFormed_getBlock [OF wf] by simp
      then have qn: "q div pageSize p = n" by (rule wellFormed_ref_key [OF wf m])
      have h: "heap ?s' ! r = slotWrite (c - n * pageSize p) v (heap s ! r)"
        using r by (simp add: nth_updBlock getStartRow_def pn)
      have qr: "0 \<le> q - n * pageSize p" "q - n * pageSize p < pageSize p"
        using block_range [OF ps, of q] qn by auto
      have w: "slotRead (slotWrite (c - n * pageSize p) v (heap s ! r)) (q - n * pageSize p)
          = (if q = c then Some v else slotRead (heap s ! r) (q - n * pageSize p))"
        using lo hi qr len by (auto simp: slotRead_def slotWrite_def nth_list_update nat_eq_iff)
      have "slotAt p ?s' q = slotRead (heap ?s' ! r) (q - getStartRow p (heap ?s' ! r))"
        unfolding slotAt_def b using Some True by simp
      also have "\<dots> = slotRead (slotWrite (c - n * pageSize p) v (heap s ! r)) (q - n * pageSize p)"
        unfolding h by (simp add: getStartRow_def pn)
      also note w
      also have "slotRead (heap s ! r) (q - n * pageSize p) = slotAt p s q"
        unfolding slotAt_def using Some True by (simp add: getStartRow_def pn)
      finally show ?thesis .
    next
      case False
      then have h': "heap ?s' ! r' = heap s ! r'" by (simp add: nth_updBlock)
      have "q \<noteq> c" using Some gr cn False by auto
      moreover have "slotAt p ?s' q = slotAt p s q"
        unfolding slotAt_def b using Some by (simp add: h')
      ultimately show ?thesis by simp
    qed
  qed
qed

lemma slotAt_setRowNode:
  assumes "wellFormed p s" and "(n, r) \<in> set (blocks s)"
    and "n * pageSize p \<le> c" and "c < n * pageSize p + pageSize p"
  shows "slotAt p (setRowNode p r c v s) q = (if q = c then Some v else slotAt p s q)"
  unfolding setRowNode_def by (rule slotAt_write [OF assms])

lemma slotAt_setBlankRowNode:
  assumes "wellFormed p s" and "(n, r) \<in> set (blocks s)"
    and "n * pageSize p \<le> c" and "c < n * pageSize p + pageSize p"
  shows "slotAt p (setBlankRowNode p r c s) q = (if q = c then Some Blank else slotAt p s q)"
  unfolding setBlankRowNode_def by (rule slotAt_write [OF assms])

section \<open>The shift of one block\<close>

lemma dirty_updBlock_frame:
  assumes "\<And>b. dirty (f b) = dirty b"
  shows "dirty (heap (updBlock r f s) ! r') = dirty (heap s ! r')"
  using assms by (simp add: nth_updBlock)

lemma dirty_getRow_noCreate: "dirty (heap (snd (getRow p i True s)) ! r) = dirty (heap s ! r)"
proof (cases "getBlock s (i div pageSize p)")
  case None
  then show ?thesis by (simp add: getRow_def)
next
  case (Some r0)
  have "dirty (heap (updBlock r0 (\<lambda>b. requestLoad (b\<lparr>lastAccessed := Suc (accessSeq s)\<rparr>))
          (s\<lparr>accessSeq := Suc (accessSeq s)\<rparr>)) ! r) = dirty (heap (s\<lparr>accessSeq := Suc (accessSeq s)\<rparr>) ! r)"
    by (rule dirty_updBlock_frame) simp
  with Some show ?thesis by (simp add: getRow_def block_getRow_def Let_def)
qed

lemma dirty_setRowNode: "dirty (heap (setRowNode p r c v s) ! r') = dirty (heap s ! r')"
  unfolding setRowNode_def by (rule dirty_updBlock_frame) simp

lemma dirty_setBlankRowNode: "dirty (heap (setBlankRowNode p r c s) ! r') = dirty (heap s ! r')"
  unfolding setBlankRowNode_def by (rule dirty_updBlock_frame) simp

lemma dirty_setDirty:
  "dirty (heap (setDirty r s) ! r') = (dirty (heap s ! r') \<or> (r' = r \<and> r < length (heap s)))"
  by (auto simp: setDirty_def nth_updBlock)

lemma dirty_setNewData: "dirty (heap (snd (setNewData p r c x s)) ! r') = dirty (heap s ! r')"
proof -
  have "dirty (heap (updBlock r (\<lambda>b. slotWrite (c - getStartRow p b) (Node (nextNodeId s) x) b)
          (s\<lparr>nextNodeId := Suc (nextNodeId s)\<rparr>)) ! r') = dirty (heap (s\<lparr>nextNodeId := Suc (nextNodeId s)\<rparr>) ! r')"
    by (rule dirty_updBlock_frame) simp
  then show ?thesis by (simp add: setNewData_def Let_def)
qed

lemma nextNodeId_updBlock [simp]: "nextNodeId (updBlock r f s) = nextNodeId s"
  by (simp add: updBlock_def)

lemma nextNodeId_getRow_noCreate: "nextNodeId (snd (getRow p i True s)) = nextNodeId s"
  by (simp add: getRow_def block_getRow_def Let_def split: option.split)

lemma blocks_sameFrame: "sameFrame s s' \<Longrightarrow> blocks s' = blocks s"
  by (simp add: sameFrame_def)

text \<open>One iteration of the loop of \<^verbatim>\<open>moveItemsDown\<close>, on a row of a resident block.\<close>

lemma moveItemsDown_body_effect:
  assumes wf: "wellFormed p s" and m: "(n, pg) \<in> set (blocks s)"
    and lo: "n * pageSize p \<le> c" and hi: "c < n * pageSize p + pageSize p"
  shows "slotAt p (moveItemsDown_body p pg l mc c s) q =
           (if l \<le> c \<and> q = c then Some (orBlank (slotAt p s (c - mc))) else slotAt p s q)"
    and "dirty (heap (moveItemsDown_body p pg l mc c s) ! r) =
           (dirty (heap s ! r) \<or> (r = pg \<and> l \<le> c \<and> slotAt p s (c - mc) = None))"
    and "nextNodeId (moveItemsDown_body p pg l mc c s) = nextNodeId s"
proof -
  let ?s1 = "snd (getRow p (c - mc) True s)"
  have v: "fst (getRow p (c - mc) True s) = slotAt p s (c - mc)" by (rule getRow_noCreate_value)
  have f1: "sameFrame s ?s1" by (rule sameFrame_getRow_noCreate)
  have wf1: "wellFormed p ?s1" by (rule sameFrame_wellFormed [OF f1 wf])
  have m1: "(n, pg) \<in> set (blocks ?s1)" using m blocks_sameFrame [OF f1] by simp
  have pg: "pg < length (heap ?s1)" by (rule wellFormed_refs [OF wf1 m1])
  have body: "moveItemsDown_body p pg l mc c s =
      (if c < l then s
       else case slotAt p s (c - mc) of
              Some node \<Rightarrow> setRowNode p pg c node ?s1
            | None \<Rightarrow> setDirty pg (setBlankRowNode p pg c ?s1))"
    using v by (simp add: moveItemsDown_body_def Let_def split_beta)
  have pg': "pg < length (heap (setBlankRowNode p pg c ?s1))"
    using pg sameFrame_length [OF sameFrame_setBlankRowNode [of ?s1 p pg c]] by simp
  show "slotAt p (moveItemsDown_body p pg l mc c s) q =
           (if l \<le> c \<and> q = c then Some (orBlank (slotAt p s (c - mc))) else slotAt p s q)"
    unfolding body
    by (simp add: slotAt_setDirty slotAt_setBlankRowNode [OF wf1 m1 lo hi]
        slotAt_setRowNode [OF wf1 m1 lo hi] getRow_noCreate_slotAt orBlank_def not_less
        split: option.split)
  show "dirty (heap (moveItemsDown_body p pg l mc c s) ! r) =
           (dirty (heap s ! r) \<or> (r = pg \<and> l \<le> c \<and> slotAt p s (c - mc) = None))"
    unfolding body
    using pg'
    by (auto simp: dirty_setDirty dirty_setBlankRowNode dirty_setRowNode dirty_getRow_noCreate
        split: option.split)
  show "nextNodeId (moveItemsDown_body p pg l mc c s) = nextNodeId s"
    unfolding body
    by (simp add: setDirty_def setBlankRowNode_def setRowNode_def nextNodeId_getRow_noCreate
        split: option.split)
qed

text \<open>The loop of \<^verbatim>\<open>moveItemsDown\<close> from row \<open>c\<close> of the block down to its first row: every
  row at or beyond \<open>l\<close> receives what the cache held \<open>mc\<close> rows before it when the loop
  started, and the block is dirty afterwards if it was or if one of these sources was
  missing.\<close>

lemma moveItemsDown_loop_effect:
  assumes "wellFormed p s" and "(n, pg) \<in> set (blocks s)"
    and "st = n * pageSize p" and "c < st + pageSize p" and "0 \<le> mc"
  shows "(\<forall>q. slotAt p (moveItemsDown_loop p pg st l mc c s) q =
            (if st \<le> q \<and> q \<le> c \<and> l \<le> q then Some (orBlank (slotAt p s (q - mc))) else slotAt p s q))
     \<and> (\<forall>r. dirty (heap (moveItemsDown_loop p pg st l mc c s) ! r) =
            (dirty (heap s ! r) \<or> (r = pg \<and> (\<exists>q. st \<le> q \<and> q \<le> c \<and> l \<le> q \<and> slotAt p s (q - mc) = None))))
     \<and> nextNodeId (moveItemsDown_loop p pg st l mc c s) = nextNodeId s"
  using assms
proof (induction p pg st l mc c s rule: moveItemsDown_loop.induct)
  case (1 p pg st l mc c s)
  show ?case
  proof (cases "st \<le> c")
    case False
    then show ?thesis by (subst (1 2 3) moveItemsDown_loop.simps) auto
  next
    case True
    let ?s1 = "moveItemsDown_body p pg l mc c s"
    have lo: "n * pageSize p \<le> c" and hi: "c < n * pageSize p + pageSize p"
      using True "1.prems" by simp_all
    note b = moveItemsDown_body_effect [OF "1.prems"(1,2) lo hi, of l mc]
    have f1: "sameFrame s ?s1" by (rule sameFrame_moveItemsDown_body)
    have wf1: "wellFormed p ?s1" by (rule sameFrame_wellFormed [OF f1 "1.prems"(1)])
    have m1: "(n, pg) \<in> set (blocks ?s1)" using "1.prems"(2) blocks_sameFrame [OF f1] by simp
    have c1: "c - 1 < st + pageSize p" using "1.prems"(4) by simp
    note ih = "1.IH" [OF True wf1 m1 "1.prems"(3) c1 "1.prems"(5)]
    have unf: "moveItemsDown_loop p pg st l mc c s = moveItemsDown_loop p pg st l mc (c - 1) ?s1"
      using True by (subst moveItemsDown_loop.simps) simp
    have src: "slotAt p ?s1 (q - mc) = slotAt p s (q - mc)" if "q \<le> c - 1" for q
      using that "1.prems"(5) by (simp add: b(1))
    have ihA: "slotAt p (moveItemsDown_loop p pg st l mc (c - 1) ?s1) q =
        (if st \<le> q \<and> q \<le> c - 1 \<and> l \<le> q then Some (orBlank (slotAt p ?s1 (q - mc))) else slotAt p ?s1 q)" for q
      using ih by blast
    have ihB: "dirty (heap (moveItemsDown_loop p pg st l mc (c - 1) ?s1) ! r) =
        (dirty (heap ?s1 ! r) \<or> (r = pg \<and> (\<exists>q. st \<le> q \<and> q \<le> c - 1 \<and> l \<le> q \<and> slotAt p ?s1 (q - mc) = None)))" for r
      using ih by blast
    have A: "\<forall>q. slotAt p (moveItemsDown_loop p pg st l mc c s) q =
            (if st \<le> q \<and> q \<le> c \<and> l \<le> q then Some (orBlank (slotAt p s (q - mc))) else slotAt p s q)"
    proof
      fix q
      show "slotAt p (moveItemsDown_loop p pg st l mc c s) q =
            (if st \<le> q \<and> q \<le> c \<and> l \<le> q then Some (orBlank (slotAt p s (q - mc))) else slotAt p s q)"
      proof (cases "q \<le> c - 1")
        case True
        then have "slotAt p ?s1 q = slotAt p s q" by (simp add: b(1))
        with True show ?thesis unfolding unf ihA src [OF True] by simp
      next
        case False
        then have "slotAt p (moveItemsDown_loop p pg st l mc (c - 1) ?s1) q = slotAt p ?s1 q"
          unfolding ihA by simp
        with False \<open>st \<le> c\<close> show ?thesis unfolding unf by (auto simp: b(1))
      qed
    qed
    have B: "\<forall>r. dirty (heap (moveItemsDown_loop p pg st l mc c s) ! r) =
            (dirty (heap s ! r) \<or> (r = pg \<and> (\<exists>q. st \<le> q \<and> q \<le> c \<and> l \<le> q \<and> slotAt p s (q - mc) = None)))"
    proof
      fix r
      have e: "(\<exists>q. st \<le> q \<and> q \<le> c \<and> l \<le> q \<and> slotAt p s (q - mc) = None) \<longleftrightarrow>
          (l \<le> c \<and> slotAt p s (c - mc) = None) \<or> (\<exists>q. st \<le> q \<and> q \<le> c - 1 \<and> l \<le> q \<and> slotAt p ?s1 (q - mc) = None)"
        (is "?L \<longleftrightarrow> ?R")
      proof
        assume ?L
        then obtain q where q: "st \<le> q" "q \<le> c" "l \<le> q" "slotAt p s (q - mc) = None" by blast
        show ?R
        proof (cases "q = c")
          case True
          with q show ?thesis by simp
        next
          case False
          with q have "q \<le> c - 1" by simp
          with q src [OF this] show ?thesis by auto
        qed
      next
        assume ?R
        then show ?L
        proof
          assume "l \<le> c \<and> slotAt p s (c - mc) = None"
          with \<open>st \<le> c\<close> show ?L by blast
        next
          assume "\<exists>q. st \<le> q \<and> q \<le> c - 1 \<and> l \<le> q \<and> slotAt p ?s1 (q - mc) = None"
          then obtain q where q: "st \<le> q" "q \<le> c - 1" "l \<le> q" "slotAt p ?s1 (q - mc) = None" by blast
          with src [OF q(2)] have "slotAt p s (q - mc) = None" by simp
          moreover from q have "q \<le> c" by simp
          ultimately show ?L using q by blast
        qed
      qed
      show "dirty (heap (moveItemsDown_loop p pg st l mc c s) ! r) =
            (dirty (heap s ! r) \<or> (r = pg \<and> (\<exists>q. st \<le> q \<and> q \<le> c \<and> l \<le> q \<and> slotAt p s (q - mc) = None)))"
        unfolding unf e ihB b(2) by blast
    qed
    have C: "nextNodeId (moveItemsDown_loop p pg st l mc c s) = nextNodeId s"
      using ih unfolding unf by (simp add: b(3))
    from A B C show ?thesis by blast
  qed
qed

section \<open>The insertion into one block\<close>

lemma freshNodes_append:
  "freshNodes k (xs @ ys) = freshNodes k xs @ freshNodes (k + length xs) ys"
  by (induction xs arbitrary: k) simp_all

lemma itemsInRange_beyond: "b \<le> pos \<Longrightarrow> itemsInRange a b pos xs = []"
  by (induction xs arbitrary: pos) simp_all

lemma wellFormed_nextNodeId [simp]: "wellFormed p (s\<lparr>nextNodeId := t\<rparr>) = wellFormed p s"
  by (simp add: wellFormed_def residentOk_def)

lemma setNewData_effect:
  assumes "wellFormed p s" and "(n, r) \<in> set (blocks s)"
    and "n * pageSize p \<le> c" and "c < n * pageSize p + pageSize p"
  shows "slotAt p (snd (setNewData p r c x s)) q = (if q = c then Some (Node (nextNodeId s) x) else slotAt p s q)"
proof -
  have w: "wellFormed p (s\<lparr>nextNodeId := Suc (nextNodeId s)\<rparr>)" using assms(1) by simp
  have m: "(n, r) \<in> set (blocks (s\<lparr>nextNodeId := Suc (nextNodeId s)\<rparr>))" using assms(2) by simp
  show ?thesis
    unfolding setNewData_def Let_def snd_conv
    by (simp add: slotAt_write [OF w m assms(3,4)])
qed

lemma setNewData_value:
  "fst (setNewData p r c x s) = Node (nextNodeId s) x"
  "nextNodeId (snd (setNewData p r c x s)) = Suc (nextNodeId s)"
  by (simp_all add: setNewData_def Let_def)

text \<open>The nodes returned by the loop of \<^verbatim>\<open>insertItems\<close>: fresh identities for the items that
  fall in the page, in the order of the items.\<close>

lemma insertItems_loop_payload:
  "fst (insertItems_loop p r a b idx k items (acc, s)) =
     acc @ freshNodes (nextNodeId s) (itemsInRange a b (idx + k) items)
   \<and> nextNodeId (snd (insertItems_loop p r a b idx k items (acc, s))) =
     nextNodeId s + length (itemsInRange a b (idx + k) items)"
proof (induction items arbitrary: k acc s)
  case Nil
  then show ?case by simp
next
  case (Cons x items)
  show ?case
  proof (cases "a \<le> idx + k \<and> idx + k < b")
    case True
    let ?s1 = "snd (setNewData p r (idx + k) x s)"
    have "insertItems_loop p r a b idx k (x # items) (acc, s) =
        insertItems_loop p r a b idx (k + 1) items (acc @ [Node (nextNodeId s) x], ?s1)"
      using True by (simp add: Let_def split_beta setNewData_value)
    with Cons.IH [of "k + 1" "acc @ [Node (nextNodeId s) x]" ?s1] True show ?thesis
      by (simp add: setNewData_value add.assoc)
  next
    case False
    then have "insertItems_loop p r a b idx k (x # items) (acc, s) =
        insertItems_loop p r a b idx (k + 1) items (acc, s)"
      by (auto simp: Let_def)
    with Cons.IH [of "k + 1" acc s] False show ?thesis by (auto simp: add.assoc)
  qed
qed

text \<open>The loop of \<^verbatim>\<open>insertItems\<close> writes only rows of the page among the target rows of the
  items, and leaves the dirty flags alone.\<close>

lemma insertItems_loop_frame:
  assumes "wellFormed p s" and "(n, r) \<in> set (blocks s)"
    and "a = n * pageSize p" and "b = a + pageSize p"
  shows "(\<forall>q. q < idx + k \<or> idx + k + int (length items) \<le> q \<or> q < a \<or> b \<le> q \<longrightarrow>
            slotAt p (snd (insertItems_loop p r a b idx k items (acc, s))) q = slotAt p s q)
     \<and> (\<forall>r'. dirty (heap (snd (insertItems_loop p r a b idx k items (acc, s))) ! r') = dirty (heap s ! r'))"
  using assms(1,2)
proof (induction items arbitrary: k acc s)
  case Nil
  then show ?case by simp
next
  case (Cons x items)
  show ?case
  proof (cases "a \<le> idx + k \<and> idx + k < b")
    case True
    let ?s1 = "snd (setNewData p r (idx + k) x s)"
    have lo: "n * pageSize p \<le> idx + k" and hi: "idx + k < n * pageSize p + pageSize p"
      using True assms(3,4) by simp_all
    have f1: "sameFrame s ?s1" by (rule sameFrame_setNewData)
    have w1: "wellFormed p ?s1" by (rule sameFrame_wellFormed [OF f1 Cons.prems(1)])
    have m1: "(n, r) \<in> set (blocks ?s1)" using Cons.prems(2) blocks_sameFrame [OF f1] by simp
    have unf: "insertItems_loop p r a b idx k (x # items) (acc, s) =
        insertItems_loop p r a b idx (k + 1) items (acc @ [fst (setNewData p r (idx + k) x s)], ?s1)"
      using True by (simp add: Let_def split_beta)
    note ih = Cons.IH [OF w1 m1, of "k + 1" "acc @ [fst (setNewData p r (idx + k) x s)]"]
    note sl = setNewData_effect [OF Cons.prems(1,2) lo hi, of x]
    have ihA: "slotAt p (snd (insertItems_loop p r a b idx (k + 1) items
          (acc @ [fst (setNewData p r (idx + k) x s)], ?s1))) q = slotAt p ?s1 q"
      if "q < idx + (k + 1) \<or> idx + (k + 1) + int (length items) \<le> q \<or> q < a \<or> b \<le> q" for q
      using ih that by blast
    have ihB: "dirty (heap (snd (insertItems_loop p r a b idx (k + 1) items
          (acc @ [fst (setNewData p r (idx + k) x s)], ?s1))) ! r') = dirty (heap ?s1 ! r')" for r'
      using ih by blast
    have A: "slotAt p (snd (insertItems_loop p r a b idx k (x # items) (acc, s))) q = slotAt p s q"
      if d: "q < idx + k \<or> idx + k + int (length (x # items)) \<le> q \<or> q < a \<or> b \<le> q" for q
    proof -
      from d True have ne: "q \<noteq> idx + k" by auto
      from d have "q < idx + (k + 1) \<or> idx + (k + 1) + int (length items) \<le> q \<or> q < a \<or> b \<le> q"
        using ne by auto
      from ihA [OF this] ne show ?thesis unfolding unf by (simp add: sl)
    qed
    have B: "dirty (heap (snd (insertItems_loop p r a b idx k (x # items) (acc, s))) ! r') = dirty (heap s ! r')" for r'
      unfolding unf ihB by (rule dirty_setNewData)
    from A B show ?thesis by blast
  next
    case False
    then have unf: "insertItems_loop p r a b idx k (x # items) (acc, s) =
        insertItems_loop p r a b idx (k + 1) items (acc, s)"
      by (auto simp: Let_def)
    note ih = Cons.IH [OF Cons.prems, of "k + 1" acc]
    show ?thesis
      unfolding unf using ih False by auto
  qed
qed

lemma in_block_iff: "0 < (ps :: int) \<Longrightarrow> (n * ps \<le> q \<and> q < n * ps + ps) \<longleftrightarrow> q div ps = n"
  using div_block [of ps n q] block_range [of ps q] by auto

text \<open>The visit of one resident block by \<^verbatim>\<open>insertItemsAtIndex\<close>.\<close>

lemma insertIntoBlock_effect:
  fixes items :: "'a list"
  assumes wf: "wellFormed p s" and mem: "(n, r) \<in> set (blocks s)"
  shows "shiftedOver p idx items [(n, r)] s acc (insertIntoBlock p idx items r (s, acc))"
proof -
  let ?ps = "pageSize p"
  let ?a = "n * ?ps"
  let ?b = "n * ?ps + ?ps"
  let ?m = "int (length items)"
  let ?res = "insertIntoBlock p idx items r (s, acc)"
  let ?ds = "itemsInRange ?a ?b idx items"
  have ps: "0 < ?ps" using wf by (simp add: wellFormed_def)
  have pn: "pageNumber (heap s ! r) = n" by (rule residentOk_pageNumber [OF wf mem])
  have f: "sameFrame s (fst ?res)" by (rule sameFrame_insertIntoBlock)
  have W: "wellFormed p (fst ?res)" by (rule sameFrame_wellFormed [OF f wf])
  have B: "blocks (fst ?res) = blocks s" by (rule blocks_sameFrame [OF f])
  have en: "getEndRow p (heap s ! r) = ?b" and st: "getStartRow p (heap s ! r) = ?a"
    by (simp_all add: getEndRow_def getStartRow_def pn)
  have core: "(\<forall>q. q div ?ps \<noteq> n \<or> q < idx \<longrightarrow> slotAt p (fst ?res) q = slotAt p s q)
     \<and> (\<forall>q. q div ?ps = n \<and> idx + ?m \<le> q \<longrightarrow> slotAt p (fst ?res) q = Some (orBlank (slotAt p s (q - ?m))))
     \<and> snd ?res = acc @ freshNodes (nextNodeId s) ?ds
     \<and> nextNodeId (fst ?res) = nextNodeId s + length ?ds
     \<and> (\<forall>r'. dirty (heap (fst ?res) ! r') =
          (dirty (heap s ! r') \<or> (r' = r \<and> (\<exists>q. q div ?ps = n \<and> idx + ?m \<le> q \<and> slotAt p s (q - ?m) = None))))"
  proof (cases "?b \<le> idx")
    case True
    then have res: "?res = (s, acc)" by (simp add: insertIntoBlock_def Let_def en)
    have none: "\<not> (q div ?ps = n \<and> idx + ?m \<le> q)" for q
      using True in_block_iff [OF ps, of n q] by auto
    have "?ds = []" using True by (rule itemsInRange_beyond)
    with none show ?thesis unfolding res by auto
  next
    case False
    let ?s1 = "moveItemsDown p r idx ?m s"
    let ?ins = "insertItems p r idx items ?s1"
    have res: "?res = (snd ?ins, acc @ fst ?ins)"
      using False by (simp add: insertIntoBlock_def Let_def en split_beta)
    have s1: "?s1 = moveItemsDown_loop p r ?a (idx + ?m) ?m (?b - 1) s"
      by (simp add: moveItemsDown_def Let_def en st)
    have c: "?b - 1 < ?a + ?ps" by simp
    note L = moveItemsDown_loop_effect [OF wf mem refl c, of ?m "idx + ?m", folded s1]
    have L1: "slotAt p ?s1 q = (if ?a \<le> q \<and> q \<le> ?b - 1 \<and> idx + ?m \<le> q
                                then Some (orBlank (slotAt p s (q - ?m))) else slotAt p s q)" for q
      using L by simp
    have L2: "dirty (heap ?s1 ! r') = (dirty (heap s ! r') \<or>
          (r' = r \<and> (\<exists>q. ?a \<le> q \<and> q \<le> ?b - 1 \<and> idx + ?m \<le> q \<and> slotAt p s (q - ?m) = None)))" for r'
      using L by simp
    have L3: "nextNodeId ?s1 = nextNodeId s" using L by simp
    have f1: "sameFrame s ?s1" by (rule sameFrame_moveItemsDown)
    have w1: "wellFormed p ?s1" by (rule sameFrame_wellFormed [OF f1 wf])
    have m1: "(n, r) \<in> set (blocks ?s1)" using mem blocks_sameFrame [OF f1] by simp
    have pn1: "pageNumber (heap ?s1 ! r) = n" by (rule residentOk_pageNumber [OF w1 m1])
    have ins: "?ins = insertItems_loop p r ?a ?b idx 0 items ([], ?s1)"
      by (simp add: insertItems_def Let_def getEndRow_def getStartRow_def pn1)
    note P = insertItems_loop_payload [of p r ?a ?b idx 0 items "[]" ?s1, folded ins]
    note F = insertItems_loop_frame [OF w1 m1 refl refl, of idx 0 items "[]", folded ins]
    have "\<forall>q. q < idx \<or> idx + ?m \<le> q \<or> q < ?a \<or> ?b \<le> q \<longrightarrow> slotAt p (snd ?ins) q = slotAt p ?s1 q"
      using F by simp
    then have F1: "slotAt p (snd ?ins) q = slotAt p ?s1 q" if "q < idx \<or> idx + ?m \<le> q \<or> q < ?a \<or> ?b \<le> q" for q
      using that by blast
    have F2: "dirty (heap (snd ?ins) ! r') = dirty (heap ?s1 ! r')" for r'
      using F by simp
    have blk: "(?a \<le> q \<and> q \<le> ?b - 1) \<longleftrightarrow> q div ?ps = n" for q
      using in_block_iff [OF ps, of n q] by auto
    have A1: "slotAt p (snd ?ins) q = slotAt p s q" if "q div ?ps \<noteq> n \<or> q < idx" for q
    proof -
      from that blk [of q] have "q < idx \<or> idx + ?m \<le> q \<or> q < ?a \<or> ?b \<le> q" by auto
      from F1 [OF this] that blk [of q] show ?thesis by (auto simp: L1)
    qed
    have A2: "slotAt p (snd ?ins) q = Some (orBlank (slotAt p s (q - ?m)))" if "q div ?ps = n" "idx + ?m \<le> q" for q
    proof -
      from that have "q < idx \<or> idx + ?m \<le> q \<or> q < ?a \<or> ?b \<le> q" by simp
      from F1 [OF this] that blk [of q] show ?thesis by (simp add: L1)
    qed
    have A5: "dirty (heap (snd ?ins) ! r') =
          (dirty (heap s ! r') \<or> (r' = r \<and> (\<exists>q. q div ?ps = n \<and> idx + ?m \<le> q \<and> slotAt p s (q - ?m) = None)))" for r'
    proof -
      have "(\<exists>q. ?a \<le> q \<and> q \<le> ?b - 1 \<and> idx + ?m \<le> q \<and> slotAt p s (q - ?m) = None)
          \<longleftrightarrow> (\<exists>q. q div ?ps = n \<and> idx + ?m \<le> q \<and> slotAt p s (q - ?m) = None)"
        using blk by blast
      then show ?thesis unfolding F2 L2 by simp
    qed
    show ?thesis
      unfolding res fst_conv snd_conv using A1 A2 A5 P by (simp add: L3)
  qed
  show ?thesis
    unfolding shiftedOver_def using W B core by simp
qed

section \<open>The visit of all resident blocks, in descending order\<close>

lemma shiftedOver_Nil: "wellFormed p s \<Longrightarrow> shiftedOver p idx items [] s acc (s, acc)"
  by (simp add: shiftedOver_def)

lemma shiftedOver_Cons:
  fixes items :: "'a list"
  assumes one: "shiftedOver p idx items [(n, r)] s acc res1"
    and more: "shiftedOver p idx items rest (fst res1) (snd res1) res2"
    and below: "\<And>n'. n' \<in> fst ` set rest \<Longrightarrow> n' < n"
    and ps: "0 < pageSize p"
  shows "shiftedOver p idx items ((n, r) # rest) s acc res2"
proof -
  let ?ps = "pageSize p"
  let ?m = "int (length items)"
  let ?s1 = "fst res1"
  let ?s2 = "fst res2"
  let ?d = "\<lambda>bs. concat (map (\<lambda>(n, r). itemsInRange (n * ?ps) (n * ?ps + ?ps) idx items) bs)"
  note o = one [unfolded shiftedOver_def]
  note r = more [unfolded shiftedOver_def]
  have o1: "slotAt p ?s1 q = slotAt p s q" if "q div ?ps \<noteq> n \<or> q < idx" for q
    using o that by simp
  have o2: "slotAt p ?s1 q = Some (orBlank (slotAt p s (q - ?m)))" if "q div ?ps = n" "idx + ?m \<le> q" for q
    using o that by simp
  have o5: "dirty (heap ?s1 ! r') = (dirty (heap s ! r') \<or>
      (r' = r \<and> (\<exists>q. q div ?ps = n \<and> idx + ?m \<le> q \<and> slotAt p s (q - ?m) = None)))" for r'
    using o by auto
  have r1: "slotAt p ?s2 q = slotAt p ?s1 q" if "q div ?ps \<notin> fst ` set rest \<or> q < idx" for q
    using r that by blast
  have r2: "slotAt p ?s2 q = Some (orBlank (slotAt p ?s1 (q - ?m)))" if "q div ?ps \<in> fst ` set rest" "idx + ?m \<le> q" for q
    using r that by blast
  have r5: "dirty (heap ?s2 ! r') = (dirty (heap ?s1 ! r') \<or>
      (\<exists>n q. (n, r') \<in> set rest \<and> q div ?ps = n \<and> idx + ?m \<le> q \<and> slotAt p ?s1 (q - ?m) = None))" for r'
    using r by blast
  have src: "slotAt p ?s1 (q - ?m) = slotAt p s (q - ?m)" if "q div ?ps \<in> fst ` set rest" for q
  proof -
    have "(q - ?m) div ?ps \<le> q div ?ps" using ps by (intro zdiv_mono1) simp_all
    with below [OF that] have "(q - ?m) div ?ps \<noteq> n" by simp
    then show ?thesis by (simp add: o1)
  qed
  have W: "wellFormed p ?s2" "blocks ?s2 = blocks s" using o r by simp_all
  have S1: "slotAt p ?s2 q = slotAt p s q" if "q div ?ps \<notin> fst ` set ((n, r) # rest) \<or> q < idx" for q
  proof -
    from that have "slotAt p ?s2 q = slotAt p ?s1 q" by (intro r1) auto
    also from that have "\<dots> = slotAt p s q" by (intro o1) auto
    finally show ?thesis .
  qed
  have S2: "slotAt p ?s2 q = Some (orBlank (slotAt p s (q - ?m)))"
    if "q div ?ps \<in> fst ` set ((n, r) # rest)" "idx + ?m \<le> q" for q
  proof (cases "q div ?ps \<in> fst ` set rest")
    case True
    from r2 [OF True that(2)] src [OF True] show ?thesis by simp
  next
    case False
    with that(1) have qn: "q div ?ps = n" by simp
    from False have "slotAt p ?s2 q = slotAt p ?s1 q" by (intro r1) simp
    with o2 [OF qn that(2)] show ?thesis by simp
  qed
  have P: "snd res2 = acc @ freshNodes (nextNodeId s) (?d ((n, r) # rest))"
    "nextNodeId ?s2 = nextNodeId s + length (?d ((n, r) # rest))"
    using o r by (simp_all add: freshNodes_append)
  have D: "dirty (heap ?s2 ! r') = (dirty (heap s ! r') \<or>
      (\<exists>n' q. (n', r') \<in> set ((n, r) # rest) \<and> q div ?ps = n' \<and> idx + ?m \<le> q \<and> slotAt p s (q - ?m) = None))" for r'
  proof -
    have "(\<exists>n' q. (n', r') \<in> set rest \<and> q div ?ps = n' \<and> idx + ?m \<le> q \<and> slotAt p ?s1 (q - ?m) = None)
        \<longleftrightarrow> (\<exists>n' q. (n', r') \<in> set rest \<and> q div ?ps = n' \<and> idx + ?m \<le> q \<and> slotAt p s (q - ?m) = None)"
      (is "?L \<longleftrightarrow> ?R")
    proof
      assume ?L
      then obtain n' q where h: "(n', r') \<in> set rest" "q div ?ps = n'" "idx + ?m \<le> q" "slotAt p ?s1 (q - ?m) = None"
        by blast
      then have "q div ?ps \<in> fst ` set rest" by force
      from src [OF this] h have "slotAt p s (q - ?m) = None" by simp
      with h show ?R by blast
    next
      assume ?R
      then obtain n' q where h: "(n', r') \<in> set rest" "q div ?ps = n'" "idx + ?m \<le> q" "slotAt p s (q - ?m) = None"
        by blast
      then have "q div ?ps \<in> fst ` set rest" by force
      from src [OF this] h have "slotAt p ?s1 (q - ?m) = None" by simp
      with h show ?L by blast
    qed
    then show ?thesis unfolding r5 o5 by auto
  qed
  show ?thesis
    unfolding shiftedOver_def using W S1 S2 P D by blast
qed

lemma insert_fold_effect:
  fixes items :: "'a list"
  assumes "wellFormed p s" and "set bs \<subseteq> set (blocks s)" and "sorted_wrt (\<lambda>x y. fst y < fst x) bs"
  shows "shiftedOver p idx items bs s acc (fold (insertIntoBlock p idx items) (map snd bs) (s, acc))"
  using assms
proof (induction bs arbitrary: s acc)
  case Nil
  then show ?case by (simp add: shiftedOver_Nil)
next
  case (Cons b bs)
  obtain n r where b: "b = (n, r)" by (cases b)
  let ?res1 = "insertIntoBlock p idx items r (s, acc)"
  have mem: "(n, r) \<in> set (blocks s)" using Cons.prems(2) b by simp
  have one: "shiftedOver p idx items [(n, r)] s acc ?res1"
    by (rule insertIntoBlock_effect [OF Cons.prems(1) mem])
  then have w1: "wellFormed p (fst ?res1)" and b1: "blocks (fst ?res1) = blocks s"
    by (simp_all add: shiftedOver_def)
  have sub: "set bs \<subseteq> set (blocks (fst ?res1))" using Cons.prems(2) b1 by simp
  have srt: "sorted_wrt (\<lambda>x y. fst y < fst x) bs" using Cons.prems(3) by simp
  have more: "shiftedOver p idx items bs (fst ?res1) (snd ?res1)
      (fold (insertIntoBlock p idx items) (map snd bs) (fst ?res1, snd ?res1))"
    by (rule Cons.IH [OF w1 sub srt])
  have below: "n' < n" if "n' \<in> fst ` set bs" for n'
    using Cons.prems(3) that b by auto
  have ps: "0 < pageSize p" using Cons.prems(1) by (simp add: wellFormed_def)
  have "shiftedOver p idx items ((n, r) # bs) s acc
      (fold (insertIntoBlock p idx items) (map snd bs) (fst ?res1, snd ?res1))"
    by (rule shiftedOver_Cons [OF one more below ps])
  then show ?case by (simp add: b)
qed

lemma distinct_map_insort_key:
  "distinct (map f (insort_key f x xs)) \<longleftrightarrow> f x \<notin> f ` set xs \<and> distinct (map f xs)"
  by (induction xs) (auto simp: set_insort_key)

lemma distinct_map_sort_key: "distinct (map f (sort_key f xs)) \<longleftrightarrow> distinct (map f xs)"
  by (induction xs) (simp_all add: distinct_map_insort_key)

text \<open>\<^verbatim>\<open>forEachBlockInReverseOrder\<close> visits exactly the resident blocks, each once, by strictly
  descending block number.\<close>

lemma blocksInReverseOrder_descending:
  assumes "distinct (map fst (blocks s))"
  shows "sorted_wrt (\<lambda>x y. fst y < fst x) (blocksInReverseOrder s)"
    and "set (blocksInReverseOrder s) = set (blocks s)"
proof -
  let ?xs = "sort_key fst (blocks s)"
  have "sorted (map fst ?xs)" by (rule sorted_sort_key)
  moreover have "distinct (map fst ?xs)" using assms by (simp add: distinct_map_sort_key)
  ultimately have "sorted_wrt (<) (map fst ?xs)" by (simp add: strict_sorted_iff)
  then have "sorted_wrt (\<lambda>x y. fst x < fst y) ?xs" by (simp add: sorted_wrt_map)
  then show "sorted_wrt (\<lambda>x y. fst y < fst x) (blocksInReverseOrder s)"
    by (simp add: blocksInReverseOrder_def sorted_wrt_rev)
  show "set (blocksInReverseOrder s) = set (blocks s)" by (simp add: blocksInReverseOrder_def)
qed

text \<open>The whole of \<^verbatim>\<open>insertItemsAtIndex\<close>: the visit, then the row count and the two events.\<close>

lemma insertItemsAtIndex_unfold:
  "insertItemsAtIndex p idx items s =
     (let res = fold (insertIntoBlock p idx items) (map snd (blocksInReverseOrder s)) (s, [])
      in (fst res)\<lparr>virtualRowCount := (if maxRowFound (fst res) then virtualRowCount (fst res) + int (length items)
                                         else virtualRowCount (fst res)),
                   events := events (fst res) @ (if active (fst res) then [ModelUpdated] else [])
                               @ [ItemsAdded (snd res)]\<rparr>)"
  by (simp add: insertItemsAtIndex_def forEachBlockInReverseOrder_def Let_def split_beta
      isMaxRowFound_def hack_setVirtualRowCount_def getVirtualRowCount_def dispatchModelUpdated_def
      isActive_def dispatchEvent_def)

lemma slotAt_shell [simp]:
  "slotAt p (s\<lparr>virtualRowCount := v, events := e\<rparr>) q = slotAt p s q"
  by (simp add: slotAt_def getBlock_def cong: option.case_cong)

lemma insertItemsAtIndex_effect:
  fixes items :: "'a list"
  assumes "wellFormed p s"
  shows "shiftedOver p idx items (blocksInReverseOrder s) s []
           (fold (insertIntoBlock p idx items) (map snd (blocksInReverseOrder s)) (s, []))"
proof -
  have d: "distinct (map fst (blocks s))" using assms by (simp add: wellFormed_def)
  note o = blocksInReverseOrder_descending [OF d]
  show ?thesis
    by (rule insert_fold_effect [OF assms _ o(1)]) (simp add: o(2))
qed

lemma insertItemsAtIndex_slotAt:
  "slotAt p (insertItemsAtIndex p idx items s) q =
     slotAt p (fst (fold (insertIntoBlock p idx items) (map snd (blocksInReverseOrder s)) (s, []))) q"
  by (simp add: insertItemsAtIndex_unfold Let_def)

lemma insertItemsAtIndex_heap:
  "heap (insertItemsAtIndex p idx items s) =
     heap (fst (fold (insertIntoBlock p idx items) (map snd (blocksInReverseOrder s)) (s, [])))"
  by (simp add: insertItemsAtIndex_unfold Let_def)

lemma insertItemsAtIndex_sameFrame_parts:
  "blocks (insertItemsAtIndex p idx items s) = blocks s"
  "length (heap (insertItemsAtIndex p idx items s)) = length (heap s)"
proof -
  let ?res = "fold (insertIntoBlock p idx items) (map snd (blocksInReverseOrder s)) (s, [])"
  have f: "sameFrame s (fst ?res)" by (rule sameFrame_fold_insertIntoBlock)
  show "blocks (insertItemsAtIndex p idx items s) = blocks s"
    using blocks_sameFrame [OF f] by (simp add: insertItemsAtIndex_unfold Let_def)
  show "length (heap (insertItemsAtIndex p idx items s)) = length (heap s)"
    using sameFrame_length [OF f] by (simp add: insertItemsAtIndex_unfold Let_def)
qed

lemma resident_iff:
  "wellFormed p s \<Longrightarrow> n \<in> fst ` set (blocks s) \<longleftrightarrow> getBlock s n \<noteq> None"
  by (simp add: getBlock_None_iff)

lemma fourRowCacheWithBlock2_value:
  "fourRowCacheWithBlock2 endKnown =
     \<lparr>blocks = [(0, 0), (1, 1), (2, 2)],
      heap = [\<lparr>pageNumber = 0, state = Loaded, dirty = False,
                rowNodes = [Node 0 ''r0'', Node 1 ''r1''], lastAccessed = 1, listeners = [OnPageLoaded]\<rparr>,
              \<lparr>pageNumber = 1, state = Loaded, dirty = False,
                rowNodes = [Node 2 ''r2'', Node 3 ''r3''], lastAccessed = 2, listeners = [OnPageLoaded]\<rparr>,
              \<lparr>pageNumber = 2, state = Loading, dirty = False,
                rowNodes = [Blank, Blank], lastAccessed = 3, listeners = [OnPageLoaded]\<rparr>],
      accessSeq = 3, nextNodeId = 4, virtualRowCount = 4, maxRowFound = endKnown, active = True,
      events = [], loadCompleteCalls = [(OnPageLoaded, 0), (OnPageLoaded, 1)]\<rparr>"
  by (simp add: fourRowCacheWithBlock2_def fourRowCache_value exampleParams_def cache_defs numeral_2_eq_2)


lemma fourRowCacheWithBlock2_insert:
  "insertItemsAtIndex exampleParams 1 [''x''] (fourRowCacheWithBlock2 endKnown) =
     \<lparr>blocks = [(0, 0), (1, 1), (2, 2)],
      heap = [\<lparr>pageNumber = 0, state = Loaded, dirty = False,
                rowNodes = [Node 0 ''r0'', Node 4 ''x''], lastAccessed = 7, listeners = [OnPageLoaded]\<rparr>,
              \<lparr>pageNumber = 1, state = Loaded, dirty = False,
                rowNodes = [Node 1 ''r1'', Node 2 ''r2''], lastAccessed = 6, listeners = [OnPageLoaded]\<rparr>,
              \<lparr>pageNumber = 2, state = Loading, dirty = False,
                rowNodes = [Node 3 ''r3'', Blank], lastAccessed = 4, listeners = [OnPageLoaded]\<rparr>],
      accessSeq = 7, nextNodeId = 5, virtualRowCount = (if endKnown then 5 else 4),
      maxRowFound = endKnown, active = True,
      events = [ModelUpdated, ItemsAdded [Node 4 ''x'']],
      loadCompleteCalls = [(OnPageLoaded, 0), (OnPageLoaded, 1)]\<rparr>"
  by (simp add: fourRowCacheWithBlock2_value exampleParams_def insert_defs cache_defs)

lemma fourRowCacheWithBlock2_pass:
  "fst (getRows exampleParams [0, 1, 2, 3, 4]
          (insertItemsAtIndex exampleParams 1 [''x''] (fourRowCacheWithBlock2 endKnown))) =
     [Some (Node 0 ''r0''), Some (Node 4 ''x''), Some (Node 1 ''r1''), Some (Node 2 ''r2''),
      Some (Node 3 ''r3'')]"
  unfolding fourRowCacheWithBlock2_insert
  by (simp add: exampleParams_def cache_defs)

lemma fourRowCache_pass_before:
  "fst (getRows exampleParams [0, 1, 2, 3] (fourRowCache endKnown)) =
     [Some (Node 0 ''r0''), Some (Node 1 ''r1''), Some (Node 2 ''r2''), Some (Node 3 ''r3'')]"
  unfolding fourRowCache_value
  by (simp add: exampleParams_def cache_defs)

section \<open>Well-formedness is an invariant\<close>

lemma wellFormed_newCache: "0 < pageSize p \<Longrightarrow> wellFormed p newCache"
  by (simp add: wellFormed_def newCache_def)

lemma wellFormed_getRow:
  assumes "wellFormed p s"
  shows "wellFormed p (snd (getRow p i dontCreatePage s))"
proof (cases "getBlock s (i div pageSize p)")
  case (Some r)
  then have "snd (getRow p i dontCreatePage s) = snd (block_getRow p r i s)"
    by (simp add: getRow_def)
  then show ?thesis using sameFrame_wellFormed [OF sameFrame_block_getRow assms] by simp
next
  case None
  show ?thesis
  proof (cases dontCreatePage)
    case True
    with None assms show ?thesis by (simp add: getRow_def)
  next
    case False
    let ?c = "createBlock p (i div pageSize p) s"
    have "snd (getRow p i dontCreatePage s) = snd (block_getRow p (fst ?c) i (snd ?c))"
      using None False by (simp add: getRow_def Let_def split_beta)
    then show ?thesis
      using sameFrame_wellFormed [OF sameFrame_block_getRow wellFormed_createBlock [OF assms None]]
      by simp
  qed
qed

lemma wellFormed_shell:
  "wellFormed p (s\<lparr>virtualRowCount := v, events := e\<rparr>) = wellFormed p s"
  by (simp add: wellFormed_def residentOk_def)

lemma wellFormed_insertItemsAtIndex:
  assumes "wellFormed p s"
  shows "wellFormed p (insertItemsAtIndex p idx items s)"
  unfolding insertItemsAtIndex_unfold Let_def wellFormed_shell
  by (rule sameFrame_wellFormed [OF sameFrame_fold_insertIntoBlock assms])

lemma wellFormed_purgeCache: "wellFormed p s \<Longrightarrow> wellFormed p (purgeCache s)"
  by (simp add: purgeCache_eq [of p s] wellFormed_purged)

lemma sameFrame_fold_setDirty: "sameFrame s (fold (\<lambda>block s'. setDirty block s') rs s)"
proof (induction rs arbitrary: s)
  case Nil
  then show ?case by simp
next
  case (Cons r rs)
  from sameFrame_trans [OF sameFrame_setDirty Cons.IH] show ?case by simp
qed

lemma wellFormed_refreshCache: "wellFormed p s \<Longrightarrow> wellFormed p (refreshCache p s)"
  unfolding refreshCache_def forEachBlockInOrder_def
  by (rule sameFrame_wellFormed [OF sameFrame_checkBlockToLoad])
     (rule sameFrame_wellFormed [OF sameFrame_fold_setDirty])

lemma length_populate: "length (populate p k items) = nat (pageSize p)"
  by (simp add: populate_def Let_def)

lemma wellFormed_fetchResolved:
  assumes "wellFormed p s"
  shows "wellFormed p (fetchResolved p r res s)"
proof -
  have upd: "wellFormed p (updBlock r f (s\<lparr>nextNodeId := k\<rparr>))"
    if "pageNumber (f (heap s ! r)) = pageNumber (heap s ! r)"
      and "length (rowNodes (f (heap s ! r))) = nat (pageSize p)" for f k
  proof -
    have "residentOk p (updBlock r f (s\<lparr>nextNodeId := k\<rparr>)) nr" if m: "nr \<in> set (blocks s)" for nr
    proof -
      obtain n r' where nr: "nr = (n, r')" by (cases nr)
      from m nr assms have ok: "r' < length (heap s)" "pageNumber (heap s ! r') = n"
        "length (rowNodes (heap s ! r')) = nat (pageSize p)"
        by (auto simp: wellFormed_def residentOk_def list_all_iff)
      with \<open>pageNumber (f (heap s ! r)) = pageNumber (heap s ! r)\<close>
        \<open>length (rowNodes (f (heap s ! r))) = nat (pageSize p)\<close>
      show ?thesis by (cases "r' = r") (simp_all add: nr residentOk_def updBlock_def)
    qed
    with assms show ?thesis by (simp add: wellFormed_def list_all_iff updBlock_def)
  qed
  have notify: "wellFormed p (notifyLoadComplete r t) = wellFormed p t" for t :: "'a cache"
    by (simp add: notifyLoadComplete_def wellFormed_def residentOk_def)
  show ?thesis
  proof (cases "state (heap s ! r) = Loading")
    case False
    with assms show ?thesis by (simp add: fetchResolved_def)
  next
    case True
    show ?thesis
    proof (cases res)
      case (FetchSuccess items)
      have "wellFormed p (updBlock r (\<lambda>b. b\<lparr>rowNodes := populate p (nextNodeId s) items, dirty := False, state := Loaded\<rparr>)
          (s\<lparr>nextNodeId := nextNodeId s + min (nat (pageSize p)) (length items)\<rparr>))"
        by (rule upd) (simp_all add: length_populate)
      with True FetchSuccess show ?thesis by (simp add: fetchResolved_def notify)
    next
      case FetchFailure
      have "sameFrame s (updBlock r (\<lambda>b. b\<lparr>state := Loaded\<rparr>) s)"
        by (rule sameFrame_updBlock) simp_all
      from sameFrame_wellFormed [OF this assms] True FetchFailure show ?thesis
        by (simp add: fetchResolved_def notify)
    qed
  qed
qed

section \<open>The claims\<close>

text \<open>
  C1: \<^verbatim>\<open>insertItemsAtIndex(index, items)\<close> visits the resident blocks, each once, in strictly
  descending block-number order; the visit of a block whose \<open>endRow\<close> is at or before
  \<open>index\<close> changes nothing; within a block \<^verbatim>\<open>moveItemsDown\<close> walks the rows from
  \<open>endRow - 1\<close> down to \<open>startRow\<close>, one row per iteration, and the iteration for a row \<open>c\<close> at
  or beyond \<open>index + length items\<close> puts at \<open>c\<close> what the cache holds at the source position
  \<open>c - length items\<close> (a blank when no block is resident there) and leaves any other row
  \<open>c\<close> alone. As a result every row position \<open>q\<close> of a resident block at or beyond
  \<open>index + length items\<close> ends up holding what the cache held at \<open>q - length items\<close> before
  the call: every shift source is read before this operation overwrites it. Rows before
  \<open>index\<close> are untouched.
\<close>

theorem insertItemsAtIndex_shift_reads_before_overwrite:
  fixes items :: "'a list"
  assumes "wellFormed p s"
  shows "sorted_wrt (\<lambda>x y. fst y < fst x) (blocksInReverseOrder s)
     \<and> set (blocksInReverseOrder s) = set (blocks s)
     \<and> (\<forall>t acc r. getEndRow p (heap t ! r) \<le> idx \<longrightarrow>
           insertIntoBlock p idx items r (t, acc) = (t, acc))
     \<and> (\<forall>(t :: 'a cache) r. moveItemsDown p r idx (int (length items)) t =
           moveItemsDown_loop p r (getStartRow p (heap t ! r)) (idx + int (length items))
             (int (length items)) (getEndRow p (heap t ! r) - 1) t)
     \<and> (\<forall>(t :: 'a cache) r st l m c. moveItemsDown_loop p r st l m c t =
           (if st \<le> c then moveItemsDown_loop p r st l m (c - 1) (moveItemsDown_body p r l m c t)
            else t))
     \<and> (\<forall>(t :: 'a cache) n r c. wellFormed p t \<and> (n, r) \<in> set (blocks t) \<and> c div pageSize p = n \<longrightarrow>
           slotAt p (moveItemsDown_body p r (idx + int (length items)) (int (length items)) c t) c =
             (if idx + int (length items) \<le> c
              then Some (orBlank (slotAt p t (c - int (length items)))) else slotAt p t c))
     \<and> (\<forall>q. getBlock s (q div pageSize p) \<noteq> None \<and> idx + int (length items) \<le> q \<longrightarrow>
           slotAt p (insertItemsAtIndex p idx items s) q
             = Some (orBlank (slotAt p s (q - int (length items)))))
     \<and> (\<forall>q. q < idx \<longrightarrow> slotAt p (insertItemsAtIndex p idx items s) q = slotAt p s q)"
proof -
  have d: "distinct (map fst (blocks s))" using assms by (simp add: wellFormed_def)
  have ps: "0 < pageSize p" using assms by (simp add: wellFormed_def)
  note o = blocksInReverseOrder_descending [OF d]
  note e = insertItemsAtIndex_effect [OF assms, of idx items, unfolded shiftedOver_def]
  have skip: "\<forall>t acc r. getEndRow p (heap t ! r) \<le> idx \<longrightarrow>
      insertIntoBlock p idx items r (t, acc) = (t, acc)"
    by (simp add: insertIntoBlock_def Let_def)
  have walk: "\<forall>(t :: 'a cache) r. moveItemsDown p r idx (int (length items)) t =
      moveItemsDown_loop p r (getStartRow p (heap t ! r)) (idx + int (length items))
        (int (length items)) (getEndRow p (heap t ! r) - 1) t"
    by (simp add: moveItemsDown_def Let_def)
  have loop: "\<forall>(t :: 'a cache) r st l m c. moveItemsDown_loop p r st l m c t =
      (if st \<le> c then moveItemsDown_loop p r st l m (c - 1) (moveItemsDown_body p r l m c t) else t)"
    by (intro allI) (rule moveItemsDown_loop.simps)
  have row: "slotAt p (moveItemsDown_body p r (idx + int (length items)) (int (length items)) c t) c =
        (if idx + int (length items) \<le> c
         then Some (orBlank (slotAt p t (c - int (length items)))) else slotAt p t c)"
    if "wellFormed p t" "(n, r) \<in> set (blocks t)" "c div pageSize p = n" for t :: "'a cache" and n r c
  proof -
    have "n * pageSize p \<le> c" "c < n * pageSize p + pageSize p"
      using in_block_iff [OF ps, of n c] that(3) by simp_all
    from moveItemsDown_body_effect(1) [OF that(1,2) this] show ?thesis by simp
  qed
  have shift: "slotAt p (insertItemsAtIndex p idx items s) q
        = Some (orBlank (slotAt p s (q - int (length items))))"
    if "getBlock s (q div pageSize p) \<noteq> None" "idx + int (length items) \<le> q" for q
  proof -
    from that(1) have "q div pageSize p \<in> fst ` set (blocksInReverseOrder s)"
      unfolding o(2) by (simp add: getBlock_None_iff)
    with e that(2) show ?thesis unfolding insertItemsAtIndex_slotAt by blast
  qed
  have before: "slotAt p (insertItemsAtIndex p idx items s) q = slotAt p s q" if "q < idx" for q
    using e that unfolding insertItemsAtIndex_slotAt by blast
  have row': "\<forall>(t :: 'a cache) n r c. wellFormed p t \<and> (n, r) \<in> set (blocks t) \<and> c div pageSize p = n \<longrightarrow>
           slotAt p (moveItemsDown_body p r (idx + int (length items)) (int (length items)) c t) c =
             (if idx + int (length items) \<le> c
              then Some (orBlank (slotAt p t (c - int (length items)))) else slotAt p t c)"
    by (intro allI impI, elim conjE, rule row)
  from shift have shift': "\<forall>q. getBlock s (q div pageSize p) \<noteq> None \<and> idx + int (length items) \<le> q \<longrightarrow>
           slotAt p (insertItemsAtIndex p idx items s) q
             = Some (orBlank (slotAt p s (q - int (length items))))"
    by blast
  from before have before': "\<forall>q. q < idx \<longrightarrow> slotAt p (insertItemsAtIndex p idx items s) q = slotAt p s q"
    by blast
  show ?thesis
    by (intro conjI o skip walk loop row' shift' before')
qed

theorem insertItemsAtIndex_shift_reads_before_overwrite_witness:
  "wellFormed exampleParams (fourRowCacheWithBlock2 True)
     \<and> blocksInReverseOrder (fourRowCacheWithBlock2 True) = [(2, 2), (1, 1), (0, 0)]
     \<and> slotAt exampleParams (fourRowCacheWithBlock2 True) 3 = Some (Node 3 ''r3'')
     \<and> slotAt exampleParams (insertItemsAtIndex exampleParams 1 [''x''] (fourRowCacheWithBlock2 True)) 4
         = Some (Node 3 ''r3'')
     \<and> slotAt exampleParams (insertItemsAtIndex exampleParams 1 [''x''] (fourRowCacheWithBlock2 True)) 0
         = Some (Node 0 ''r0'')"
proof -
  have w: "wellFormed exampleParams (fourRowCacheWithBlock2 True)"
    by (simp add: fourRowCacheWithBlock2_value wellFormed_def residentOk_def exampleParams_def)
  have o: "blocksInReverseOrder (fourRowCacheWithBlock2 True) = [(2, 2), (1, 1), (0, 0)]"
    by (simp add: fourRowCacheWithBlock2_value blocksInReverseOrder_def)
  have s3: "slotAt exampleParams (fourRowCacheWithBlock2 True) 3 = Some (Node 3 ''r3'')"
    and s0: "slotAt exampleParams (fourRowCacheWithBlock2 True) 0 = Some (Node 0 ''r0'')"
    and g: "getBlock (fourRowCacheWithBlock2 True) (4 div pageSize exampleParams) \<noteq> None"
    by (simp_all add: fourRowCacheWithBlock2_value slotAt_def getBlock_def slotRead_def getStartRow_def
        exampleParams_def)
  note c1 = insertItemsAtIndex_shift_reads_before_overwrite [OF w, of 1 "[''x'']"]
  note shift = c1 [THEN conjunct2, THEN conjunct2, THEN conjunct2, THEN conjunct2, THEN conjunct2,
      THEN conjunct2, THEN conjunct1, rule_format]
  note before = c1 [THEN conjunct2, THEN conjunct2, THEN conjunct2, THEN conjunct2, THEN conjunct2,
      THEN conjunct2, THEN conjunct2, rule_format]
  from shift [of 4] before [of 0] g
  have "slotAt exampleParams (insertItemsAtIndex exampleParams 1 [''x''] (fourRowCacheWithBlock2 True)) 4
          = Some (orBlank (slotAt exampleParams (fourRowCacheWithBlock2 True) (4 - int (length [''x'']))))"
    and "slotAt exampleParams (insertItemsAtIndex exampleParams 1 [''x''] (fourRowCacheWithBlock2 True)) 0
          = slotAt exampleParams (fourRowCacheWithBlock2 True) 0"
    by simp_all
  with w o s3 s0 show ?thesis by (simp add: orBlank_def)
qed

text \<open>
  C2 (as amended): with \<open>pageSize = 2\<close> and the rows \<open>r0, r1, r2, r3\<close> resident in block 0 and
  block 1, \<^verbatim>\<open>insertItemsAtIndex(1, [x])\<close> moves the row of index 1 to index 2 and the row of
  index 2 to index 3 and puts the new item at index 1; the row \<open>r3\<close> of index 3 is dropped,
  since no block is resident for index 4: a \<^verbatim>\<open>getRow\<close> pass over the indices 0..4 returns
  \<open>r0, x, r1, r2\<close> and then a blank row of the newly created block 2. When block 2 is
  resident as well, the pass returns \<open>r0, x, r1, r2, r3\<close>. The row-count estimate grows by 1
  only if the end of the dataset was known.
\<close>

theorem insertion_shift_concrete_case:
  "fst (getRows exampleParams [0, 1, 2, 3] (fourRowCache endKnown)) =
     [Some (Node 0 ''r0''), Some (Node 1 ''r1''), Some (Node 2 ''r2''), Some (Node 3 ''r3'')]
   \<and> fst (getRows exampleParams [0, 1, 2, 3, 4]
            (insertItemsAtIndex exampleParams 1 [''x''] (fourRowCache endKnown))) =
     [Some (Node 0 ''r0''), Some (Node 4 ''x''), Some (Node 1 ''r1''), Some (Node 2 ''r2''), Some Blank]
   \<and> fst (getRows exampleParams [0, 1, 2, 3, 4]
            (insertItemsAtIndex exampleParams 1 [''x''] (fourRowCacheWithBlock2 endKnown))) =
     [Some (Node 0 ''r0''), Some (Node 4 ''x''), Some (Node 1 ''r1''), Some (Node 2 ''r2''),
      Some (Node 3 ''r3'')]
   \<and> virtualRowCount (insertItemsAtIndex exampleParams 1 [''x''] (fourRowCache endKnown)) =
     (if endKnown then virtualRowCount (fourRowCache endKnown) + 1
      else virtualRowCount (fourRowCache endKnown))"
proof -
  have v: "virtualRowCount (insertItemsAtIndex exampleParams 1 [''x''] (fourRowCache endKnown)) =
     (if endKnown then virtualRowCount (fourRowCache endKnown) + 1
      else virtualRowCount (fourRowCache endKnown))"
    unfolding fourRowCache_insert by (simp add: fourRowCache_value)
  show ?thesis
    unfolding fourRowCache_pass_before fourRowCache_pass fourRowCacheWithBlock2_pass
    using v by simp
qed

theorem insertion_drops_last_row_counterexample:
  "fst (getRows exampleParams [0, 1, 2, 3, 4]
          (insertItemsAtIndex exampleParams 1 [''x''] (fourRowCache True))) \<noteq>
     [Some (Node 0 ''r0''), Some (Node 4 ''x''), Some (Node 1 ''r1''), Some (Node 2 ''r2''),
      Some (Node 3 ''r3'')]
   \<and> fst (getRows exampleParams [0, 1, 2, 3, 4]
            (insertItemsAtIndex exampleParams 1 [''x''] (fourRowCache True))) ! 4 = Some Blank
   \<and> getBlock (fourRowCache True) 2 = None"
proof -
  have "getBlock (fourRowCache True) 2 = None" by (simp add: fourRowCache_value getBlock_def)
  then show ?thesis unfolding fourRowCache_pass by simp
qed

text \<open>
  C3: during the shift the source row is fetched by \<^verbatim>\<open>getRow\<close> with block creation disabled.
  If no block is resident for the source index \<open>q - length items\<close> of a destination row \<open>q\<close>
  of a resident block, \<^verbatim>\<open>getRow\<close> returns absence and leaves the cache as it is (no block
  is created); the iteration of \<^verbatim>\<open>moveItemsDown\<close> for \<open>q\<close> then writes a blank at \<open>q\<close> and
  marks the destination block dirty; and the whole of \<^verbatim>\<open>insertItemsAtIndex\<close> returns
  normally with the same resident blocks, the blank at \<open>q\<close> and the block dirty.
\<close>

theorem missing_shift_source_blank_and_dirty:
  fixes items :: "'a list"
  assumes "wellFormed p s" and "(n, r) \<in> set (blocks s)" and "q div pageSize p = n"
    and "idx + int (length items) \<le> q"
    and "getBlock s ((q - int (length items)) div pageSize p) = None"
  shows "getRow p (q - int (length items)) True s = (None, s)
     \<and> slotAt p (moveItemsDown_body p r (idx + int (length items)) (int (length items)) q s) q = Some Blank
     \<and> dirty (heap (moveItemsDown_body p r (idx + int (length items)) (int (length items)) q s) ! r)
     \<and> blocks (moveItemsDown_body p r (idx + int (length items)) (int (length items)) q s) = blocks s
     \<and> length (heap (moveItemsDown_body p r (idx + int (length items)) (int (length items)) q s)) = length (heap s)
     \<and> slotAt p (insertItemsAtIndex p idx items s) q = Some Blank
     \<and> dirty (heap (insertItemsAtIndex p idx items s) ! r)
     \<and> blocks (insertItemsAtIndex p idx items s) = blocks s
     \<and> length (heap (insertItemsAtIndex p idx items s)) = length (heap s)"
proof -
  let ?m = "int (length items)"
  let ?b = "moveItemsDown_body p r (idx + ?m) ?m q s"
  have ps: "0 < pageSize p" using assms(1) by (simp add: wellFormed_def)
  have src: "slotAt p s (q - ?m) = None" using assms(5) by (simp add: slotAt_def)
  have lo: "n * pageSize p \<le> q" and hi: "q < n * pageSize p + pageSize p"
    using in_block_iff [OF ps, of n q] assms(3) by simp_all
  note b = moveItemsDown_body_effect [OF assms(1,2) lo hi, of "idx + ?m" ?m]
  have fb: "sameFrame s ?b" by (rule sameFrame_moveItemsDown_body)
  have 1: "getRow p (q - ?m) True s = (None, s)" by (rule getRow_noCreate_missing [OF assms(5)])
  have 2: "slotAt p ?b q = Some Blank" using assms(4) src by (simp add: b(1) orBlank_def)
  have 3: "dirty (heap ?b ! r)" using assms(4) src by (simp add: b(2))
  have 4: "blocks ?b = blocks s" by (rule blocks_sameFrame [OF fb])
  have 5: "length (heap ?b) = length (heap s)" by (rule sameFrame_length [OF fb])
  have d: "distinct (map fst (blocks s))" using assms(1) by (simp add: wellFormed_def)
  note o = blocksInReverseOrder_descending [OF d]
  note e = insertItemsAtIndex_effect [OF assms(1), of idx items, unfolded shiftedOver_def]
  have vis: "q div pageSize p \<in> fst ` set (blocksInReverseOrder s)"
    unfolding o(2) using assms(2,3) by force
  have 6: "slotAt p (insertItemsAtIndex p idx items s) q = Some Blank"
  proof -
    from e vis assms(4) have "slotAt p (insertItemsAtIndex p idx items s) q = Some (orBlank (slotAt p s (q - ?m)))"
      unfolding insertItemsAtIndex_slotAt by blast
    then show ?thesis by (simp add: src orBlank_def)
  qed
  have 7: "dirty (heap (insertItemsAtIndex p idx items s) ! r)"
  proof -
    have "\<exists>n q. (n, r) \<in> set (blocksInReverseOrder s) \<and> q div pageSize p = n \<and> idx + ?m \<le> q
        \<and> slotAt p s (q - ?m) = None"
      unfolding o(2) using assms(2,3,4) src by blast
    with e show ?thesis unfolding insertItemsAtIndex_heap by blast
  qed
  note 8 = insertItemsAtIndex_sameFrame_parts [of p idx items s]
  from 1 2 3 4 5 6 7 8 show ?thesis by simp
qed

theorem missing_shift_source_blank_and_dirty_witness:
  "wellFormed exampleParams onlyBlock1Cache \<and> blocks onlyBlock1Cache = [(1, 0)]
     \<and> getBlock onlyBlock1Cache ((2 - int (length [7 :: nat])) div pageSize exampleParams) = None
     \<and> dirty (heap onlyBlock1Cache ! 0) = False
     \<and> slotAt exampleParams (insertItemsAtIndex exampleParams 0 [7] onlyBlock1Cache) 2 = Some Blank
     \<and> dirty (heap (insertItemsAtIndex exampleParams 0 [7] onlyBlock1Cache) ! 0)
     \<and> blocks (insertItemsAtIndex exampleParams 0 [7] onlyBlock1Cache) = [(1, 0)]"
proof -
  have v: "onlyBlock1Cache =
     \<lparr>blocks = [(1, 0)],
      heap = [\<lparr>pageNumber = 1, state = Loading, dirty = False, rowNodes = [Blank, Blank],
                lastAccessed = 1, listeners = [OnPageLoaded]\<rparr>],
      accessSeq = 1, nextNodeId = 0, virtualRowCount = 0, maxRowFound = False, active = True,
      events = [], loadCompleteCalls = []\<rparr>"
    by (simp add: onlyBlock1Cache_def exampleParams_def newCache_def cache_defs numeral_2_eq_2)
  have w: "wellFormed exampleParams onlyBlock1Cache"
    by (simp add: v wellFormed_def residentOk_def exampleParams_def)
  have m: "(1, 0) \<in> set (blocks onlyBlock1Cache)" by (simp add: v)
  have q: "(2 :: int) div pageSize exampleParams = 1" by (simp add: exampleParams_def)
  have i: "(0 :: int) + int (length [7 :: nat]) \<le> 2" by simp
  have g: "getBlock onlyBlock1Cache ((2 - int (length [7 :: nat])) div pageSize exampleParams) = None"
    by (simp add: v getBlock_def exampleParams_def)
  from missing_shift_source_blank_and_dirty [OF w m q i g] w g
  show ?thesis by (simp add: v)
qed

text \<open>
  C4 (as amended): when the creation of a block pushes the number of resident blocks above
  \<open>maxBlocksInCache\<close> and another block is resident, exactly one block is evicted: among
  the blocks other than the new one it is the first, in the iteration order of the map,
  of those with the least \<open>lastAccessed\<close>; the eviction is not retried, so the number of
  resident blocks is what it was before the creation, above the bound or not. When the
  new block is the only resident block nothing is evicted.
\<close>

theorem createBlock_evicts_least_recently_used:
  assumes "wellFormed p s" and "getBlock s n = None"
  shows "let new = fst (createBlock p n s); s' = snd (createBlock p n s);
             la = (\<lambda>nr. lastAccessed (heap s ! snd nr));
             over = (case maxBlocksInCache p of None \<Rightarrow> False
                     | Some k \<Rightarrow> k < int (length (blocks s)) + 1)
         in new = length (heap s)
          \<and> (\<not> over \<longrightarrow> blocks s' = blocks s @ [(n, new)])
          \<and> (over \<and> blocks s = [] \<longrightarrow> blocks s' = [(n, new)])
          \<and> (over \<and> blocks s \<noteq> [] \<longrightarrow>
               (\<exists>j < length (blocks s).
                   blocks s' = AList.delete (fst (blocks s ! j)) (blocks s) @ [(n, new)]
                 \<and> length (blocks s') = length (blocks s)
                 \<and> (\<forall>i < length (blocks s). la (blocks s ! j) \<le> la (blocks s ! i))
                 \<and> (\<forall>i < j. la (blocks s ! j) < la (blocks s ! i))))"
proof -
  let ?m = "withNewBlock p n s"
  let ?new = "length (heap s)"
  let ?over = "case maxBlocksInCache p of None \<Rightarrow> False | Some k \<Rightarrow> k < int (length (blocks s)) + 1"
  let ?la = "\<lambda>nr. lastAccessed (heap s ! snd nr)"
  let ?cs = "filter (\<lambda>r. r \<noteq> ?new) (map snd (blocks ?m))"
  have cs: "?cs = map snd (blocks s)" by (rule others_withNewBlock [OF assms(1)])
  have bm: "blocks ?m = blocks s @ [(n, ?new)]" by (simp add: withNewBlock_def)
  have np: "needToPurge p ?m = ?over"
    by (auto simp: needToPurge_def getBlockCount_def bm split: option.split)
  have cb: "createBlock p n s = (?new, checkBlockToLoad p
      (if ?over then removeBlockFromCache (findLeastRecentlyUsedPage ?m ?new) ?m else ?m))"
    unfolding createBlock_unfold [OF assms(2)] np ..
  have scan: "findLeastRecentlyUsedPage ?m ?new = fold (lruStep ?m ?new) (map snd (blocks ?m)) None"
    by (simp add: findLeastRecentlyUsedPage_def forEachBlockInOrder_def blocksInOrder_def)
  have c1: "\<not> ?over \<Longrightarrow> blocks (snd (createBlock p n s)) = blocks s @ [(n, ?new)]"
    by (simp add: cb blocks_checkBlockToLoad bm)
  have c2: "blocks (snd (createBlock p n s)) = [(n, ?new)]" if "?over" "blocks s = []"
  proof -
    have "findLeastRecentlyUsedPage ?m ?new = None"
      using that(2) by (simp add: scan bm lruStep_def)
    with that show ?thesis
      by (simp add: cb blocks_checkBlockToLoad bm removeBlockFromCache_def)
  qed
  have c3: "\<exists>j < length (blocks s).
        blocks (snd (createBlock p n s)) = AList.delete (fst (blocks s ! j)) (blocks s) @ [(n, ?new)]
      \<and> length (blocks (snd (createBlock p n s))) = length (blocks s)
      \<and> (\<forall>i < length (blocks s). ?la (blocks s ! j) \<le> ?la (blocks s ! i))
      \<and> (\<forall>i < j. ?la (blocks s ! j) < ?la (blocks s ! i))"
    if "?over" "blocks s \<noteq> []"
  proof -
    from that(2) have ne: "?cs \<noteq> []" unfolding cs by simp
    with lruScan_first_least [of ?new "map snd (blocks ?m)" ?m]
    obtain j where j: "j < length ?cs"
      and res: "fold (lruStep ?m ?new) (map snd (blocks ?m)) None = Some (?cs ! j)"
      and least: "\<forall>i < length ?cs. lastAccessed (heap ?m ! (?cs ! j)) \<le> lastAccessed (heap ?m ! (?cs ! i))"
      and first: "\<forall>i < j. lastAccessed (heap ?m ! (?cs ! j)) < lastAccessed (heap ?m ! (?cs ! i))"
      by blast
    from j have jl: "j < length (blocks s)" unfolding cs by simp
    have old: "heap ?m ! snd (blocks s ! i) = heap s ! snd (blocks s ! i)" if "i < length (blocks s)" for i
    proof -
      from that have "(fst (blocks s ! i), snd (blocks s ! i)) \<in> set (blocks s)" by simp
      then have "snd (blocks s ! i) < length (heap s)" by (rule wellFormed_refs [OF assms(1)])
      then show ?thesis by (rule heap_withNewBlock_old)
    qed
    have nth: "?cs ! i = snd (blocks s ! i)" if "i < length (blocks s)" for i
      unfolding cs using that by simp
    have key: "pageNumber (heap ?m ! (?cs ! j)) = fst (blocks s ! j)"
    proof -
      from jl have "(fst (blocks s ! j), snd (blocks s ! j)) \<in> set (blocks s)" by simp
      then have "pageNumber (heap s ! snd (blocks s ! j)) = fst (blocks s ! j)"
        by (rule residentOk_pageNumber [OF assms(1)])
      then show ?thesis by (simp add: nth [OF jl] old [OF jl])
    qed
    have kn: "fst (blocks s ! j) \<noteq> n"
    proof -
      from jl have "fst (blocks s ! j) \<in> fst ` set (blocks s)" by simp
      with assms(2) show ?thesis by (auto simp: getBlock_None_iff)
    qed
    have lru: "findLeastRecentlyUsedPage ?m ?new = Some (?cs ! j)"
      unfolding scan by (rule res)
    have "blocks (removeBlockFromCache (Some (?cs ! j)) ?m) = AList.delete (fst (blocks s ! j)) (blocks ?m)"
      unfolding blocks_removeBlockFromCache key ..
    also have "\<dots> = AList.delete (fst (blocks s ! j)) (blocks s) @ [(n, ?new)]"
      unfolding bm using kn by (simp add: AList.delete_eq)
    finally have rm: "blocks (removeBlockFromCache (Some (?cs ! j)) ?m)
        = AList.delete (fst (blocks s ! j)) (blocks s) @ [(n, ?new)]" .
    have "blocks (snd (createBlock p n s)) = blocks (removeBlockFromCache (findLeastRecentlyUsedPage ?m ?new) ?m)"
      using that(1) by (simp add: cb blocks_checkBlockToLoad)
    then have b': "blocks (snd (createBlock p n s)) = AList.delete (fst (blocks s ! j)) (blocks s) @ [(n, ?new)]"
      unfolding lru rm .
    have d: "distinct (map fst (blocks s))" using assms(1) by (simp add: wellFormed_def)
    have len: "length (blocks (snd (createBlock p n s))) = length (blocks s)"
      unfolding b' using length_delete_nth [OF d jl] by simp
    have l1: "\<forall>i < length (blocks s). ?la (blocks s ! j) \<le> ?la (blocks s ! i)"
    proof (intro allI impI)
      fix i assume i: "i < length (blocks s)"
      then have "i < length ?cs" unfolding cs by simp
      with least have "lastAccessed (heap ?m ! (?cs ! j)) \<le> lastAccessed (heap ?m ! (?cs ! i))" by blast
      then show "?la (blocks s ! j) \<le> ?la (blocks s ! i)"
        by (simp add: nth [OF jl] nth [OF i] old [OF jl] old [OF i])
    qed
    have l2: "\<forall>i < j. ?la (blocks s ! j) < ?la (blocks s ! i)"
    proof (intro allI impI)
      fix i assume ij: "i < j"
      with jl have i: "i < length (blocks s)" by simp
      from first ij have "lastAccessed (heap ?m ! (?cs ! j)) < lastAccessed (heap ?m ! (?cs ! i))" by blast
      then show "?la (blocks s ! j) < ?la (blocks s ! i)"
        by (simp add: nth [OF jl] nth [OF i] old [OF jl] old [OF i])
    qed
    from jl b' len l1 l2 show ?thesis by blast
  qed
  have c0: "fst (createBlock p n s) = ?new" by (simp add: cb)
  show ?thesis
    unfolding Let_def c0 using c1 c2 c3 by blast
qed

theorem createBlock_evicts_least_recently_used_witness:
  "wellFormed boundedParams twoBlockCache \<and> getBlock twoBlockCache 2 = None
     \<and> blocks twoBlockCache = [(0, 0), (1, 1)]
     \<and> lastAccessed (heap twoBlockCache ! 0) = 1 \<and> lastAccessed (heap twoBlockCache ! 1) = 2
     \<and> blocks (snd (createBlock boundedParams 2 twoBlockCache)) = [(1, 1), (2, 2)]"
proof -
  have v: "twoBlockCache =
     \<lparr>blocks = [(0, 0), (1, 1)],
      heap = [\<lparr>pageNumber = 0, state = Loading, dirty = False, rowNodes = [Blank, Blank],
                lastAccessed = 1, listeners = [OnPageLoaded]\<rparr>,
              \<lparr>pageNumber = 1, state = Loading, dirty = False, rowNodes = [Blank, Blank],
                lastAccessed = 2, listeners = [OnPageLoaded]\<rparr>],
      accessSeq = 2, nextNodeId = 0, virtualRowCount = 0, maxRowFound = False, active = True,
      events = [], loadCompleteCalls = []\<rparr>"
    by (simp add: twoBlockCache_def init_def boundedParams_def newCache_def cache_defs numeral_2_eq_2)
  have w: "wellFormed boundedParams twoBlockCache"
    by (simp add: v wellFormed_def residentOk_def boundedParams_def)
  have g: "getBlock twoBlockCache 2 = None" by (simp add: v getBlock_def)
  have c: "blocks (snd (createBlock boundedParams 2 twoBlockCache)) = [(1, 1), (2, 2)]"
    by (simp add: v boundedParams_def cache_defs)
  show ?thesis
    using createBlock_evicts_least_recently_used [OF w g] w g c by (simp add: v)
qed

theorem createBlock_zero_bound_counterexample:
  "wellFormed zeroBoundParams (newCache :: nat cache)
     \<and> getBlock (newCache :: nat cache) 0 = None
     \<and> maxBlocksInCache zeroBoundParams = Some 0
     \<and> needToPurge zeroBoundParams (setBlock 0 0 (newCache :: nat cache))
     \<and> blocks (snd (createBlock zeroBoundParams 0 (newCache :: nat cache))) = [(0, 0)]
     \<and> getBlockCount (snd (createBlock zeroBoundParams 0 (newCache :: nat cache))) = 1"
  by (simp add: wellFormed_def zeroBoundParams_def newCache_def cache_defs)

text \<open>
  C5: evicting a block only removes it from the block map: the block object, with the
  load-complete listener registered at its creation, and everything else of the cache
  are as before. So a block evicted while \<open>Loading\<close> still calls its listener when its
  fetch resolves, with success or failure, and calls it once: the block then is no
  longer \<open>Loading\<close>, and has no further fetch to resolve. (The listener is the one that
  \<^verbatim>\<open>createBlock\<close> registers, the only listener of a block: lemma \<open>createBlock_listeners\<close>.)
\<close>

theorem evicted_block_keeps_listener:
  assumes "r < length (heap s)" and "state (heap s ! r) = Loading"
    and "listeners (heap s ! r) = [OnPageLoaded]"
  shows "removeBlockFromCache (Some r) s = s\<lparr>blocks := AList.delete (pageNumber (heap s ! r)) (blocks s)\<rparr>
     \<and> getBlock (removeBlockFromCache (Some r) s) (pageNumber (heap s ! r)) = None
     \<and> heap (removeBlockFromCache (Some r) s) = heap s
     \<and> loadCompleteCalls (removeBlockFromCache (Some r) s) = loadCompleteCalls s
     \<and> loadCompleteCalls (fetchResolved p r res (removeBlockFromCache (Some r) s))
         = loadCompleteCalls s @ [(OnPageLoaded, r)]
     \<and> state (heap (fetchResolved p r res (removeBlockFromCache (Some r) s)) ! r) = Loaded
     \<and> fetchResolved p r res' (fetchResolved p r res (removeBlockFromCache (Some r) s))
         = fetchResolved p r res (removeBlockFromCache (Some r) s)"
proof -
  let ?e = "removeBlockFromCache (Some r) s"
  have e: "?e = s\<lparr>blocks := AList.delete (pageNumber (heap s ! r)) (blocks s)\<rparr>"
    by (rule removeBlockFromCache_Some)
  have g: "getBlock ?e (pageNumber (heap s ! r)) = None"
    by (simp add: e getBlock_def AList.delete_conv')
  have c: "loadCompleteCalls (fetchResolved p r res ?e) = loadCompleteCalls s @ [(OnPageLoaded, r)]"
    using assms by (cases res) (simp_all add: e fetchResolved_def notifyLoadComplete_def updBlock_def)
  have st: "state (heap (fetchResolved p r res ?e) ! r) = Loaded"
    using assms by (cases res) (simp_all add: e fetchResolved_def notifyLoadComplete_def updBlock_def)
  have "fetchResolved p r res' (fetchResolved p r res ?e) = fetchResolved p r res ?e"
    using st by (simp add: fetchResolved_def)
  with e g c st show ?thesis by simp
qed

theorem evicted_block_keeps_listener_witness:
  "(0 :: nat) < length (heap (init exampleParams newCache :: nat cache))
     \<and> state (heap (init exampleParams newCache :: nat cache) ! 0) = Loading
     \<and> listeners (heap (init exampleParams newCache :: nat cache) ! 0) = [OnPageLoaded]
     \<and> blocks (removeBlockFromCache (Some 0) (init exampleParams newCache :: nat cache)) = []
     \<and> loadCompleteCalls (fetchResolved exampleParams 0 (FetchSuccess [7, 8])
          (removeBlockFromCache (Some 0) (init exampleParams newCache :: nat cache))) = [(OnPageLoaded, 0)]"
proof -
  have v: "(init exampleParams newCache :: nat cache) =
     \<lparr>blocks = [(0, 0)],
      heap = [\<lparr>pageNumber = 0, state = Loading, dirty = False, rowNodes = [Blank, Blank],
                lastAccessed = 1, listeners = [OnPageLoaded]\<rparr>],
      accessSeq = 1, nextNodeId = 0, virtualRowCount = 0, maxRowFound = False, active = True,
      events = [], loadCompleteCalls = []\<rparr>"
    by (simp add: init_def exampleParams_def newCache_def cache_defs numeral_2_eq_2)
  have a: "(0 :: nat) < length (heap (init exampleParams newCache :: nat cache))"
    "state (heap (init exampleParams newCache :: nat cache) ! 0) = Loading"
    "listeners (heap (init exampleParams newCache :: nat cache) ! 0) = [OnPageLoaded]"
    by (simp_all add: v)
  show ?thesis
    using evicted_block_keeps_listener [OF a, of exampleParams "FetchSuccess [7, 8]" FetchFailure] a
    by (simp add: v removeBlockFromCache_def removeBlock_def)
qed

text \<open>
  C6: for every call of \<^verbatim>\<open>insertItemsAtIndex\<close>, the row-count estimate grows by the number
  of items exactly when \<open>maxRowFound\<close> is true, and is unchanged otherwise.
\<close>

theorem insertItemsAtIndex_virtualRowCount: "virtualRowCount (insertItemsAtIndex p indexToInsert items s) =
     (if maxRowFound s then virtualRowCount s + int (length items) else virtualRowCount s)"
proof -
  obtain s1 ns where g: "forEachBlockInReverseOrder (insertIntoBlock p indexToInsert items) s (s, []) = (s1, ns)"
    by (cases "forEachBlockInReverseOrder (insertIntoBlock p indexToInsert items) s (s, [])")
  have "sameFrame s s1"
    using sameFrame_fold_insertIntoBlock [of s p indexToInsert items "map snd (blocksInReverseOrder s)" "[]"] g
    by (simp add: forEachBlockInReverseOrder_def)
  then have "virtualRowCount s1 = virtualRowCount s" "maxRowFound s1 = maxRowFound s"
    by (simp_all add: sameFrame_def)
  with g show ?thesis
    by (simp add: insertItemsAtIndex_def Let_def isMaxRowFound_def hack_setVirtualRowCount_def
        getVirtualRowCount_def dispatchModelUpdated_def dispatchEvent_def)
qed

text \<open>
  C7 (as amended): every call of \<^verbatim>\<open>insertItemsAtIndex\<close> emits a model-updated notification
  if the cache is active, and none if it is not, followed by exactly one items-added
  notification. Its payload holds the newly materialised row identities only: fresh
  identities (no shifted row, no blank) for the items whose target row lies in a resident
  block, block by block in descending block-number order, and in the order of the items
  within a block.
\<close>

theorem insertItemsAtIndex_events:
  fixes items :: "'a list"
  assumes "wellFormed p s"
  shows "events (insertItemsAtIndex p idx items s) =
           events s @ (if active s then [ModelUpdated] else [])
             @ [ItemsAdded (freshNodes (nextNodeId s)
                  (concat (map (\<lambda>(n, r). itemsInRange (n * pageSize p) (n * pageSize p + pageSize p) idx items)
                             (blocksInReverseOrder s))))]"
proof -
  let ?res = "fold (insertIntoBlock p idx items) (map snd (blocksInReverseOrder s)) (s, [])"
  note e = insertItemsAtIndex_effect [OF assms, of idx items, unfolded shiftedOver_def]
  have f: "sameFrame s (fst ?res)" by (rule sameFrame_fold_insertIntoBlock)
  then have "events (fst ?res) = events s" "active (fst ?res) = active s"
    by (simp_all add: sameFrame_def)
  moreover from e have "snd ?res = freshNodes (nextNodeId s)
      (concat (map (\<lambda>(n, r). itemsInRange (n * pageSize p) (n * pageSize p + pageSize p) idx items)
         (blocksInReverseOrder s)))"
    by simp
  ultimately show ?thesis by (simp add: insertItemsAtIndex_unfold Let_def)
qed

theorem insertItemsAtIndex_events_witness:
  "wellFormed exampleParams (fourRowCache True)
     \<and> events (insertItemsAtIndex exampleParams 1 [''x''] (fourRowCache True))
         = [ModelUpdated, ItemsAdded [Node 4 ''x'']]"
proof -
  have w: "wellFormed exampleParams (fourRowCache True)"
    by (simp add: fourRowCache_value wellFormed_def residentOk_def exampleParams_def)
  from insertItemsAtIndex_events [OF w, of 1 "[''x'']"] w
  show ?thesis by (simp add: fourRowCache_value blocksInReverseOrder_def exampleParams_def)
qed

theorem insertItemsAtIndex_events_counterexample:
  "events (insertItemsAtIndex exampleParams 1 [''x'', ''y''] (fourRowCache True))
       = [ModelUpdated, ItemsAdded [Node 4 ''y'', Node 5 ''x'']]
     \<and> events (insertItemsAtIndex exampleParams 1 [''x''] ((fourRowCache True)\<lparr>active := False\<rparr>))
       = [ItemsAdded [Node 4 ''x'']]"
  by (simp add: fourRowCache_value exampleParams_def insert_defs cache_defs)

text \<open>
  C8: for every row index \<open>i\<close>, \<^verbatim>\<open>getRow(i)\<close> computes the block number \<open>i div pageSize\<close> and
  is served by the block with that number: after the call that block is resident (the
  block that was resident before, if there was one), it has just been stamped as
  accessed, the row returned is its slot \<open>i - startRow\<close>, and its range
  \<open>[startRow, endRow) = [blockId * pageSize, (blockId + 1) * pageSize)\<close> contains \<open>i\<close>.
\<close>

theorem getRow_block_ownership:
  assumes "wellFormed p s"
  shows "let blockId = i div pageSize p; v = fst (getRow p i False s); s' = snd (getRow p i False s)
         in \<exists>r. getBlock s' blockId = Some r
              \<and> (getBlock s blockId = None \<or> getBlock s blockId = Some r)
              \<and> pageNumber (heap s' ! r) = blockId
              \<and> getStartRow p (heap s' ! r) = blockId * pageSize p
              \<and> getEndRow p (heap s' ! r) = (blockId + 1) * pageSize p
              \<and> getStartRow p (heap s' ! r) \<le> i \<and> i < getEndRow p (heap s' ! r)
              \<and> v = Some (rowNodes (heap s' ! r) ! nat (i - getStartRow p (heap s' ! r)))
              \<and> lastAccessed (heap s' ! r) = accessSeq s'"
proof -
  let ?b = "i div pageSize p"
  from getRow_served [OF assms, of i] obtain r s0 where
    w0: "wellFormed p s0" and g0: "getBlock s0 ?b = Some r"
    and e: "getRow p i False s = block_getRow p r i s0"
    and old: "getBlock s ?b \<noteq> None \<longrightarrow> getBlock s ?b = Some r"
    by blast
  have ps: "0 < pageSize p" using assms by (simp add: wellFormed_def)
  note srv = block_getRow_served [OF w0 g0]
  have st: "getStartRow p (heap (snd (block_getRow p r i s0)) ! r) = ?b * pageSize p"
    by (simp add: getStartRow_def srv(2))
  have en: "getEndRow p (heap (snd (block_getRow p r i s0)) ! r) = (?b + 1) * pageSize p"
    by (simp add: getEndRow_def st algebra_simps)
  have "getBlock (snd (block_getRow p r i s0)) ?b = Some r
      \<and> (getBlock s ?b = None \<or> getBlock s ?b = Some r)
      \<and> pageNumber (heap (snd (block_getRow p r i s0)) ! r) = ?b
      \<and> getStartRow p (heap (snd (block_getRow p r i s0)) ! r) = ?b * pageSize p
      \<and> getEndRow p (heap (snd (block_getRow p r i s0)) ! r) = (?b + 1) * pageSize p
      \<and> getStartRow p (heap (snd (block_getRow p r i s0)) ! r) \<le> i
      \<and> i < getEndRow p (heap (snd (block_getRow p r i s0)) ! r)
      \<and> fst (block_getRow p r i s0) = Some (rowNodes (heap (snd (block_getRow p r i s0)) ! r) !
            nat (i - getStartRow p (heap (snd (block_getRow p r i s0)) ! r)))
      \<and> lastAccessed (heap (snd (block_getRow p r i s0)) ! r) = accessSeq (snd (block_getRow p r i s0))"
    unfolding en unfolding st
    using srv old block_range [OF ps, of i] by (auto simp: algebra_simps)
  then show ?thesis unfolding Let_def e by blast
qed

theorem getRow_block_ownership_witness:
  "wellFormed exampleParams (init exampleParams newCache :: nat cache)
     \<and> getBlock (snd (getRow exampleParams 3 False (init exampleParams newCache :: nat cache))) 1 = Some 1
     \<and> getStartRow exampleParams (heap (snd (getRow exampleParams 3 False (init exampleParams newCache :: nat cache))) ! 1) = 2
     \<and> getEndRow exampleParams (heap (snd (getRow exampleParams 3 False (init exampleParams newCache :: nat cache))) ! 1) = 4"
proof -
  have w: "wellFormed exampleParams (init exampleParams newCache :: nat cache)"
    by (simp add: wellFormed_def residentOk_def init_def exampleParams_def newCache_def cache_defs)
  have d: "(3 :: int) div pageSize exampleParams = 1" by (simp add: exampleParams_def)
  show ?thesis
    using getRow_block_ownership [OF w, of 3] w unfolding Let_def d
    by (simp add: init_def exampleParams_def newCache_def cache_defs)
qed

text \<open>
  C9 (as amended): \<^verbatim>\<open>purgeCache\<close> evicts every resident block and then emits one
  model-updated notification if the cache is active, and none if it is not. Called twice
  in succession, both calls leave no resident block, the second changes nothing else of
  the cache, each call emits one notification under the same condition, and the next
  \<^verbatim>\<open>getRow\<close> creates the block of the requested row again.
\<close>

theorem purgeCache_effect:
  assumes "wellFormed p s"
  shows "blocks (purgeCache s) = []
     \<and> events (purgeCache s) = events s @ (if active s then [ModelUpdated] else [])
     \<and> blocks (purgeCache (purgeCache s)) = []
     \<and> events (purgeCache (purgeCache s)) =
         events (purgeCache s) @ (if active s then [ModelUpdated] else [])
     \<and> heap (purgeCache (purgeCache s)) = heap (purgeCache s)
     \<and> virtualRowCount (purgeCache (purgeCache s)) = virtualRowCount (purgeCache s)
     \<and> maxRowFound (purgeCache (purgeCache s)) = maxRowFound (purgeCache s)
     \<and> getBlock (snd (getRow p i False (purgeCache s))) (i div pageSize p) = Some (length (heap s))"
proof -
  let ?es = "events s @ (if active s then [ModelUpdated] else [])"
  have 1: "purgeCache s = s\<lparr>blocks := [], events := ?es\<rparr>"
    by (rule purgeCache_eq [OF assms])
  have w: "wellFormed p (purgeCache s)" unfolding 1 by (rule wellFormed_purged [OF assms])
  have 2: "purgeCache (purgeCache s) = (purgeCache s)\<lparr>blocks := [],
      events := events (purgeCache s) @ (if active (purgeCache s) then [ModelUpdated] else [])\<rparr>"
    by (rule purgeCache_eq [OF w])
  have 3: "blocks (snd (getRow p i False (purgeCache s))) = [(i div pageSize p, length (heap (purgeCache s)))]"
    by (rule getRow_empty) (simp add: 1)
  have 4: "active (purgeCache s) = active s" "heap (purgeCache s) = heap s" by (simp_all add: 1)
  show ?thesis
    unfolding getBlock_def 3 by (simp add: 2 4) (simp add: 1)
qed

theorem purgeCache_effect_witness:
  "wellFormed exampleParams (init exampleParams newCache :: nat cache)
     \<and> blocks (init exampleParams newCache :: nat cache) = [(0, 0)]
     \<and> blocks (purgeCache (init exampleParams newCache :: nat cache)) = []
     \<and> events (purgeCache (init exampleParams newCache :: nat cache)) = [ModelUpdated]
     \<and> events (purgeCache (purgeCache (init exampleParams newCache :: nat cache))) = [ModelUpdated, ModelUpdated]"
proof -
  have w: "wellFormed exampleParams (init exampleParams newCache :: nat cache)"
    by (simp add: wellFormed_def residentOk_def init_def exampleParams_def newCache_def cache_defs)
  have e: "events (init exampleParams newCache :: nat cache) = []" "active (init exampleParams newCache :: nat cache)"
    "blocks (init exampleParams newCache :: nat cache) = [(0, 0)]"
    by (simp_all add: init_def exampleParams_def newCache_def cache_defs)
  show ?thesis
    using purgeCache_effect [OF w, of 0] w e by simp
qed

theorem purgeCache_inactive_counterexample:
  "wellFormed exampleParams inactiveCache \<and> blocks inactiveCache = [(0, 0)]
     \<and> blocks (purgeCache inactiveCache) = []
     \<and> events (purgeCache inactiveCache) = events inactiveCache
     \<and> ModelUpdated \<notin> set (events (purgeCache inactiveCache))"
  by (simp add: inactiveCache_def wellFormed_def residentOk_def init_def exampleParams_def newCache_def cache_defs
      purgeCache_def dispatchModelUpdated_def isActive_def)

text \<open>
  C10: the post-construct hook \<^verbatim>\<open>init\<close> calls \<^verbatim>\<open>getRow(0)\<close> with block creation allowed, so
  on the freshly constructed cache block number 0 is created and resident: the
  initialised cache does not start with an empty block map.
\<close>

theorem init_creates_block_0:
  assumes "0 < pageSize p"
  shows "blocks (init p (newCache :: 'a cache)) = [(0, 0)]
     \<and> getBlock (init p (newCache :: 'a cache)) 0 = Some 0
     \<and> pageNumber (heap (init p (newCache :: 'a cache)) ! 0) = 0
     \<and> blocks (init p (newCache :: 'a cache)) \<noteq> []"
  by (simp add: init_def newCache_def cache_defs split: option.split)

theorem init_creates_block_0_witness:
  "0 < pageSize exampleParams \<and> blocks (init exampleParams (newCache :: nat cache)) = [(0, 0)]"
  using init_creates_block_0 [where 'a = nat and p = exampleParams] by (simp add: exampleParams_def)

end
